theory Spec2Isabelle
  imports Complex_Main "HOL-Library.Multiset"
begin

section \<open>The Live Watch tree model (live-watch.ts, class LiveVariableNode)\<close>

text \<open>
  The extension host keeps the watched expressions in a tree of \<open>LiveVariableNode\<close>
  objects. The tree is embedded as a value: a node carries its scalar fields in a record
  and its \<open>children\<close> array (or \<open>undefined\<close>) as an optional list of nodes. Every
  method that mutates \<open>this\<close> becomes a function that returns the updated node, next to
  the method's own result.

  Three points of the source shape the data types.

  \<^item> \<open>parent\<close> is an object reference that is assigned once, in the constructor, and the
    class reads through it nothing but \<open>getParent()\<close> (in \<open>isRootChild\<close>) and whether it
    is set. \<open>ParentRef\<close> is the referenced node seen through that reference: its own
    parent link.
  \<^item> \<open>session\<close> holds a \<open>vscode.DebugSession\<close> object that is only compared by
    identity; a session is represented by a number.
  \<^item> \<open>id\<close> and \<open>prevValue\<close> are declared \<open>string\<close>, but \<open>refreshChildren\<close> can
    store \<open>undefined\<close> in them (see \<open>lookupState\<close> below), so both are optional
    strings with \<open>None\<close> for \<open>undefined\<close>.

  The private counters \<open>namedVariables\<close> and \<open>indexedVariables\<close> are written by
  \<open>refresh\<close> and never read; they are left out.
\<close>

type_synonym DebugSession = nat

datatype ParentRef = ParentRef (getParent: "ParentRef option")

record NodeFields =
  session :: "DebugSession option"
  prevValue :: "string option"
  expanded :: bool
  id' :: "string option"
  parent :: "ParentRef option"
  name :: string
  expr :: string
  value' :: string
  type' :: string
  variablesReference :: int

datatype LiveVariableNode =
  LiveVariableNode (attrs: NodeFields) (children: "LiveVariableNode list option")

text \<open>A reference to \<open>this\<close>, as the constructor of a child receives it.\<close>

definition selfRef :: "LiveVariableNode \<Rightarrow> ParentRef" where
  "selfRef this = ParentRef (parent (attrs this))"

subsection \<open>The constructor and the static id counter\<close>

text \<open>
  \<open>idCounter\<close> is a static field of the class: every function that constructs a node
  takes the counter and returns it incremented. The id is the text \<open>node_\<close> followed by
  the counter in decimal.
\<close>

definition digit :: "nat \<Rightarrow> char" where
  "digit d = ''0123456789'' ! d"

fun show_nat :: "nat \<Rightarrow> string" where
  "show_nat n = (if n < 10 then [digit n] else show_nat (n div 10) @ [digit (n mod 10)])"

declare show_nat.simps [simp del]

definition newNode ::
  "nat \<Rightarrow> ParentRef option \<Rightarrow> string \<Rightarrow> string \<Rightarrow> string \<Rightarrow> string \<Rightarrow> int
     \<Rightarrow> nat \<times> LiveVariableNode" where
  "newNode idCounter p nm ex v t reference =
     (idCounter + 1,
      LiveVariableNode
        \<lparr> session = None, prevValue = Some '''', expanded = False,
          id' = Some (''node_'' @ show_nat idCounter), parent = p, name = nm, expr = ex,
          value' = v, type' = t, variablesReference = reference \<rparr>
        None)"

subsection \<open>Accessors\<close>

definition getChildren :: "LiveVariableNode \<Rightarrow> LiveVariableNode list" where
  "getChildren this = (case children this of None \<Rightarrow> [] | Some cs \<Rightarrow> cs)"

definition hasChildrenNodes :: "LiveVariableNode \<Rightarrow> bool" where
  "hasChildrenNodes this =
     (variablesReference (attrs this) > 0 \<or> length (getChildren this) > 0)"

definition isRootChild :: "LiveVariableNode \<Rightarrow> bool" where
  "isRootChild this =
     (case parent (attrs this) of None \<Rightarrow> False | Some node \<Rightarrow> getParent node = None)"

definition rename :: "string \<Rightarrow> LiveVariableNode \<Rightarrow> LiveVariableNode" where
  "rename nm this =
     (if isRootChild this
      then LiveVariableNode ((attrs this)\<lparr>name := nm, expr := nm\<rparr>) (children this)
      else this)"

definition isValueChanged :: "LiveVariableNode \<Rightarrow> bool" where
  "isValueChanged this =
     (prevValue (attrs this) \<noteq> Some '''' \<and>
      prevValue (attrs this) \<noteq> Some (value' (attrs this)))"

fun findName :: "string \<Rightarrow> LiveVariableNode list \<Rightarrow> LiveVariableNode option" where
  "findName str [] = None"
| "findName str (child # rest) =
     (if name (attrs child) = str then Some child else findName str rest)"

subsection \<open>Adding, removing and reordering children\<close>

definition addChild ::
  "nat \<Rightarrow> LiveVariableNode \<Rightarrow> string \<Rightarrow> string \<Rightarrow> string \<Rightarrow> string \<Rightarrow> int
     \<Rightarrow> nat \<times> LiveVariableNode \<times> LiveVariableNode" where
  "addChild idCounter this nm ex v t reference =
     (case newNode idCounter (Some (selfRef this)) nm (if ex = '''' then nm else ex) v t reference
      of (idCounter', child) \<Rightarrow>
        (idCounter', child,
         LiveVariableNode (attrs this) (Some (getChildren this @ [child]))))"

text \<open>
  \<open>removeChild\<close>, \<open>moveUpChild\<close> and \<open>moveDownChild\<close> run the same loop: they walk
  \<open>this.children\<close> with a running index \<open>ix\<close> and act at the first child whose name
  equals the name of the argument. \<open>indexOfName\<close> is that loop; it returns the index
  at which the body fires, or \<open>None\<close> when the loop runs to its end.
\<close>

fun indexOfName :: "string \<Rightarrow> LiveVariableNode list \<Rightarrow> nat \<Rightarrow> nat option" where
  "indexOfName nm [] ix = None"
| "indexOfName nm (child # rest) ix =
     (if name (attrs child) = nm then Some ix else indexOfName nm rest (ix + 1))"

text \<open>
  The argument \<open>node\<close> may be \<open>undefined\<close> (\<open>None\<close>). Each function returns the
  method's boolean with the updated \<open>this\<close>.
\<close>

definition removeChild ::
  "LiveVariableNode \<Rightarrow> LiveVariableNode option \<Rightarrow> bool \<times> LiveVariableNode" where
  "removeChild this node =
     (case node of
        None \<Rightarrow> (False, this)
      | Some nd \<Rightarrow>
          if \<not> isRootChild nd then (False, this)
          else
            (case indexOfName (name (attrs nd)) (getChildren this) 0 of
               None \<Rightarrow> (False, this)
             | Some ix \<Rightarrow>
                 (True,
                  LiveVariableNode (attrs this)
                    (Some (take ix (getChildren this) @ drop (ix + 1) (getChildren this))))))"

definition moveUpChild ::
  "LiveVariableNode \<Rightarrow> LiveVariableNode option \<Rightarrow> bool \<times> LiveVariableNode" where
  "moveUpChild this node =
     (case node of
        None \<Rightarrow> (False, this)
      | Some nd \<Rightarrow>
          if \<not> isRootChild nd then (False, this)
          else
            (case indexOfName (name (attrs nd)) (getChildren this) 0 of
               None \<Rightarrow> (False, this)
             | Some ix \<Rightarrow>
                 (let cs = getChildren this; child = cs ! ix in
                  (True,
                   LiveVariableNode (attrs this)
                     (Some (if ix > 0
                            then (cs[ix := cs ! (ix - 1)])[ix - 1 := child]
                            else tl cs @ [hd cs]))))))"

definition moveDownChild ::
  "LiveVariableNode \<Rightarrow> LiveVariableNode option \<Rightarrow> bool \<times> LiveVariableNode" where
  "moveDownChild this node =
     (case node of
        None \<Rightarrow> (False, this)
      | Some nd \<Rightarrow>
          if \<not> isRootChild nd then (False, this)
          else
            (case indexOfName (name (attrs nd)) (getChildren this) 0 of
               None \<Rightarrow> (False, this)
             | Some ix \<Rightarrow>
                 (let cs = getChildren this; child = cs ! ix;
                      last_ix = int (length cs) - 1 in
                  (True,
                   LiveVariableNode (attrs this)
                     (Some (if int ix \<noteq> last_ix
                            then (cs[ix := cs ! (ix + 1)])[ix + 1 := child]
                            else last cs # butlast cs))))))"

definition addNewExpr :: "nat \<Rightarrow> LiveVariableNode \<Rightarrow> string \<Rightarrow> bool \<times> nat \<times> LiveVariableNode" where
  "addNewExpr idCounter this ex =
     (if parent (attrs this) \<noteq> None then (False, idCounter, this)
      else if list_ex (\<lambda>child. ex = expr (attrs child)) (getChildren this)
      then (False, idCounter, this)
      else (case addChild idCounter this ex ex '''' '''' 0 of
              (idCounter', child, this') \<Rightarrow> (True, idCounter', this')))"

text \<open>A sequence of \<open>addNewExpr\<close> calls on the same node, whatever each call returns.\<close>

fun addNewExprs :: "nat \<Rightarrow> LiveVariableNode \<Rightarrow> string list \<Rightarrow> nat \<times> LiveVariableNode" where
  "addNewExprs idCounter this [] = (idCounter, this)"
| "addNewExprs idCounter this (ex # rest) =
     (case addNewExpr idCounter this ex of
        (added, idCounter', this') \<Rightarrow> addNewExprs idCounter' this' rest)"

subsection \<open>Projection to the webview (toWebViewNode)\<close>

text \<open>
  The host interface \<open>WebViewVariableNode\<close> and the webview's \<open>VariableNode\<close>
  declare the same fields; the message transport carries the one to the other, so one type
  stands for both. Its scalar fields are prefixed with \<open>v_\<close>, the names of the node
  record being taken.
\<close>

record VariableFields =
  v_id :: "string option"
  v_name :: string
  v_expr :: string
  v_value :: string
  v_type :: string
  v_hasChildren :: bool
  v_expanded :: bool
  v_changed :: bool
  v_isRoot :: bool
  v_depth :: int

datatype VariableNode =
  VariableNode (v_attrs: VariableFields) (v_children: "VariableNode list option")

text \<open>
  \<open>String.prototype.split\<close> with a string separator: \<open>splitFrom\<close> scans \<open>s\<close>,
  collecting the current piece in \<open>acc\<close> (reversed). With an empty separator JavaScript
  splits into single characters.
\<close>

function splitFrom :: "string \<Rightarrow> string \<Rightarrow> string \<Rightarrow> string list" where
  "splitFrom sep acc s =
     (if s = [] then [rev acc]
      else if sep \<noteq> [] \<and> take (length sep) s = sep
      then rev acc # splitFrom sep [] (drop (length sep) s)
      else splitFrom sep (hd s # acc) (tl s))"
  by pat_completeness auto
termination
  by (relation "measure (\<lambda>(sep, acc, s). length s)") auto

declare splitFrom.simps [simp del]

definition split :: "string \<Rightarrow> string \<Rightarrow> string list" where
  "split s sep = (if sep = [] then map (\<lambda>c. [c]) s else splitFrom sep [] s)"

definition startsWith :: "string \<Rightarrow> string \<Rightarrow> bool" where
  "startsWith s p = (take (length p) s = p)"

text \<open>
  \<open>toWebViewNode\<close> returns the projection together with the updated node: it stores
  the current value in \<open>prevValue\<close>, and so does every recursive call on a child of an
  expanded node. \<open>getPathRelative\<close> is imported from another module and is a parameter.
  \<open>cwd\<close> is optional. The source pops the display name off \<open>parts\<close> before reading
  \<open>parts[0]\<close>; \<open>butlast\<close> is the array after the pop (\<open>split\<close> never returns an
  empty array).
\<close>

fun toWebViewNode ::
  "(string \<Rightarrow> string \<Rightarrow> string) \<Rightarrow> int \<Rightarrow> string option \<Rightarrow> LiveVariableNode
     \<Rightarrow> VariableNode \<times> LiveVariableNode" where
  "toWebViewNode getPathRelative depth cwd (LiveVariableNode f cs) =
     (let this = LiveVariableNode f cs;
          parts = (if startsWith (name f) [CHR 0x27] \<and> isRootChild this
                   then split (name f) (CHR 0x27 # ''::'') else [name f]);
          popped = butlast parts;
          file = (if popped \<noteq> [] then drop 1 (hd popped) else '''');
          file' = (case cwd of
                     None \<Rightarrow> file
                   | Some dir \<Rightarrow> if file \<noteq> '''' \<and> dir \<noteq> '''' then getPathRelative dir file else file);
          changed = isValueChanged this;
          projected = (if expanded f
                       then map_option (map (toWebViewNode getPathRelative (depth + 1) cwd)) cs
                       else None);
          node = VariableNode
                   \<lparr> v_id = id' f, v_name = name f, v_expr = expr f, v_value = value' f,
                     v_type = (if file' \<noteq> '''' then ''File: '' @ file' @ [CHR 0x0A] else '''') @ type' f,
                     v_hasChildren = hasChildrenNodes this, v_expanded = expanded f,
                     v_changed = changed, v_isRoot = isRootChild this, v_depth = depth \<rparr>
                   (map_option (map fst) projected)
      in (node,
          LiveVariableNode (f\<lparr>prevValue := Some (value' f)\<rparr>)
            (if expanded f then map_option (map snd) projected else cs)))"

subsection \<open>Serialization (pvtSerialize, serialize, deSerialize)\<close>

datatype NodeState =
  NodeState (ns_name: string) (ns_expr: string) (ns_expanded: bool)
    (ns_children: "NodeState list")

text \<open>
  \<open>pvtSerialize(state)\<close> builds \<open>item\<close>, pushes it onto \<open>state.children\<close> when a
  \<open>state\<close> is given, and calls itself on every child with \<open>item\<close> as the state. The
  function below returns \<open>item\<close>; the pushes of the children's items, in order, are the
  \<open>map\<close>.
\<close>

fun pvtSerialize :: "LiveVariableNode \<Rightarrow> NodeState" where
  "pvtSerialize (LiveVariableNode f cs) =
     NodeState (name f) (expr f) (expanded f \<or> parent f = None)
       (case cs of None \<Rightarrow> [] | Some l \<Rightarrow> map pvtSerialize l)"

definition serialize :: "LiveVariableNode \<Rightarrow> NodeState" where
  "serialize this = pvtSerialize this"

text \<open>
  \<open>deSerialize\<close> loops over \<open>state.children\<close>; \<open>deSerializeLoop\<close> is the loop over
  the children still to come. The source pushes the new item and then fills it in place;
  here the item is filled and then appended.
\<close>

fun deSerialize :: "nat \<Rightarrow> LiveVariableNode \<Rightarrow> NodeState \<Rightarrow> nat \<times> LiveVariableNode"
  and deSerializeLoop :: "nat \<Rightarrow> LiveVariableNode \<Rightarrow> NodeState list \<Rightarrow> nat \<times> LiveVariableNode"
  where
  "deSerialize idCounter this (NodeState nm ex ep kids) = deSerializeLoop idCounter this kids"
| "deSerializeLoop idCounter this [] = (idCounter, this)"
| "deSerializeLoop idCounter this (child # rest) =
     (case newNode idCounter (Some (selfRef this)) (ns_name child) (ns_expr child) '''' '''' 0 of
        (c1, item) \<Rightarrow>
          (case deSerialize c1
                  (LiveVariableNode ((attrs item)\<lparr>expanded := ns_expanded child\<rparr>) (children item))
                  child of
             (c2, item') \<Rightarrow>
               deSerializeLoop c2
                 (LiveVariableNode (attrs this) (Some (getChildren this @ [item']))) rest))"

subsection \<open>Refreshing children from the debug adapter (refreshChildren)\<close>

text \<open>
  A \<open>DebugProtocol.Variable\<close> of the adapter's reply. The source guards every field but
  \<open>name\<close> against \<open>undefined\<close> (\<open>||\<close>, \<open>??\<close>), so those fields are optional.
\<close>

record Variable =
  var_name :: string
  var_evaluateName :: "string option"
  var_value :: "string option"
  var_type :: "string option"
  var_variablesReference :: "int option"

text \<open>
  The promise of \<open>customRequest('liveVariables', varg)\<close> either rejects or fulfils with
  a result; \<open>None\<close> stands for a result without a \<open>variables\<close> array. The adapter is
  an external collaborator: it is a parameter, a function from the requested
  \<open>variablesReference\<close> to the reply.
\<close>

datatype liveVariablesReply = Rejected | Fulfilled "Variable list option"

type_synonym Adapter = "int \<Rightarrow> liveVariablesReply"

record SaveVarState =
  sv_id :: "string option"
  sv_expanded :: bool
  sv_value :: string
  sv_children :: "LiveVariableNode list option"

text \<open>
  \<open>oldStateMap\<close> is the object literal \<open>{}\<close> used as a dictionary, so it is a
  JavaScript object with prototype \<open>Object.prototype\<close>, and \<open>oldStateMap[k]\<close> is a
  property access:

  \<^item> a read finds an own property first and then walks the prototype chain, where it
    finds the members of \<open>Object.prototype\<close> (functions, hence truthy values);
  \<^item> the key \<open>__proto__\<close> is an accessor of \<open>Object.prototype\<close>: assigning an object
    to it replaces the prototype of \<open>oldStateMap\<close> by that object and creates no own
    property, and reading it returns the current prototype.

  \<open>own\<close> holds the own properties and \<open>proto\<close> the saved state that an assignment to
  \<open>__proto__\<close> installed as prototype, if any. \<open>objectPrototypeKeys\<close> lists the
  property names of \<open>Object.prototype\<close> other than \<open>__proto__\<close> (ECMAScript, with its
  Annex B).
\<close>

record SaveVarStateMap =
  own :: "string \<rightharpoonup> SaveVarState"
  proto :: "SaveVarState option"

definition emptyStateMap :: SaveVarStateMap where
  "emptyStateMap = \<lparr> own = Map.empty, proto = None \<rparr>"

definition assignState :: "SaveVarStateMap \<Rightarrow> string \<Rightarrow> SaveVarState \<Rightarrow> SaveVarStateMap" where
  "assignState m k s =
     (if k = ''__proto__'' then m\<lparr>proto := Some s\<rparr> else m\<lparr>own := (own m)(k \<mapsto> s)\<rparr>)"

definition objectPrototypeKeys :: "string list" where
  "objectPrototypeKeys =
     [''constructor'', ''hasOwnProperty'', ''isPrototypeOf'', ''propertyIsEnumerable'',
      ''toLocaleString'', ''toString'', ''valueOf'', ''__defineGetter__'',
      ''__defineSetter__'', ''__lookupGetter__'', ''__lookupSetter__'']"

text \<open>
  What \<open>oldStateMap[k]\<close> evaluates to, as far as the source looks at it: a saved state
  (\<open>Found\<close>); some other truthy value, on which \<open>id\<close>, \<open>expanded\<close>, \<open>value\<close> and
  \<open>children\<close> all read \<open>undefined\<close> (\<open>Truthy\<close>: a function or the prototype object
  itself, or a non-empty string, \<open>true\<close> or an array found as a field of the state
  installed as prototype); or a falsy value such as \<open>undefined\<close> (\<open>Falsy\<close>).
\<close>

datatype Lookup = Found SaveVarState | Truthy | Falsy

definition inheritedFromObject :: "string \<Rightarrow> Lookup" where
  "inheritedFromObject k = (if k \<in> set objectPrototypeKeys then Truthy else Falsy)"

definition lookupState :: "SaveVarStateMap \<Rightarrow> string \<Rightarrow> Lookup" where
  "lookupState m k =
     (if k = ''__proto__'' then (case proto m of Some s \<Rightarrow> Found s | None \<Rightarrow> Truthy)
      else
        (case own m k of
           Some s \<Rightarrow> Found s
         | None \<Rightarrow>
             (case proto m of
                None \<Rightarrow> inheritedFromObject k
              | Some s \<Rightarrow>
                  if k = ''id''
                  then (case sv_id s of
                          None \<Rightarrow> Falsy
                        | Some i \<Rightarrow> if i \<noteq> '''' then Truthy else Falsy)
                  else if k = ''expanded'' then (if sv_expanded s then Truthy else Falsy)
                  else if k = ''value'' then (if sv_value s \<noteq> '''' then Truthy else Falsy)
                  else if k = ''children''
                  then (if sv_children s \<noteq> None then Truthy else Falsy)
                  else inheritedFromObject k)))"

definition stateOf :: "LiveVariableNode \<Rightarrow> SaveVarState" where
  "stateOf child =
     \<lparr> sv_id = id' (attrs child), sv_expanded = expanded (attrs child),
       sv_value = value' (attrs child), sv_children = children child \<rparr>"

definition saveStates :: "LiveVariableNode list \<Rightarrow> SaveVarStateMap" where
  "saveStates cs =
     foldl (\<lambda>m child. assignState m (name (attrs child)) (stateOf child)) emptyStateMap cs"

text \<open>
  The body of the loop over \<open>result.variables\<close>: construct \<open>ch\<close>, copy the old state
  when \<open>oldStateMap[ch.name]\<close> is truthy, set the session. With a truthy value that is
  not a saved state the four copied fields are \<open>undefined\<close>; \<open>expanded\<close>, which the
  host only tests for truth, is then stored as \<open>False\<close>.
\<close>

definition makeChild ::
  "LiveVariableNode \<Rightarrow> DebugSession \<Rightarrow> SaveVarStateMap \<Rightarrow> nat \<Rightarrow> Variable
     \<Rightarrow> nat \<times> LiveVariableNode" where
  "makeChild this sess oldStateMap idCounter variable =
     (case newNode idCounter (Some (selfRef this)) (var_name variable)
             (case var_evaluateName variable of
                None \<Rightarrow> var_name variable
              | Some e \<Rightarrow> if e \<noteq> '''' then e else var_name variable)
             (case var_value variable of None \<Rightarrow> '''' | Some v \<Rightarrow> v)
             (case var_type variable of None \<Rightarrow> '''' | Some t \<Rightarrow> t)
             (case var_variablesReference variable of None \<Rightarrow> 0 | Some r \<Rightarrow> r) of
        (idCounter', ch) \<Rightarrow>
          (idCounter',
           (let ch' =
                  (case lookupState oldStateMap (name (attrs ch)) of
                     Found oldState \<Rightarrow>
                       LiveVariableNode
                         ((attrs ch)\<lparr> id' := sv_id oldState,
                                      expanded := (sv_expanded oldState \<and>
                                                   variablesReference (attrs ch) > 0),
                                      prevValue := Some (sv_value oldState) \<rparr>)
                         (sv_children oldState)
                   | Truthy \<Rightarrow>
                       LiveVariableNode
                         ((attrs ch)\<lparr> id' := None, expanded := False, prevValue := None \<rparr>)
                         None
                   | Falsy \<Rightarrow> ch)
            in LiveVariableNode ((attrs ch')\<lparr>session := Some sess\<rparr>) (children ch'))))"

fun makeChildren ::
  "LiveVariableNode \<Rightarrow> DebugSession \<Rightarrow> SaveVarStateMap \<Rightarrow> nat \<Rightarrow> Variable list
     \<Rightarrow> nat \<times> LiveVariableNode list" where
  "makeChildren this sess oldStateMap idCounter [] = (idCounter, [])"
| "makeChildren this sess oldStateMap idCounter (variable # rest) =
     (case makeChild this sess oldStateMap idCounter variable of
        (c1, ch) \<Rightarrow>
          (case makeChildren this sess oldStateMap c1 rest of
             (c2, chs) \<Rightarrow> (c2, ch # chs)))"

text \<open>
  The first half of the fulfilment callback: \<open>this.children\<close> becomes \<open>undefined\<close>
  when the result has no variables, and the list of the new children otherwise.
\<close>

definition rebuildChildren ::
  "LiveVariableNode \<Rightarrow> DebugSession \<Rightarrow> nat \<Rightarrow> Variable list option \<Rightarrow> nat \<times> LiveVariableNode" where
  "rebuildChildren this sess idCounter variables =
     (case variables of
        None \<Rightarrow> (idCounter, LiveVariableNode (attrs this) None)
      | Some vs \<Rightarrow>
          if vs = [] then (idCounter, LiveVariableNode (attrs this) None)
          else
            (case makeChildren this sess (saveStates (getChildren this)) idCounter vs of
               (idCounter', chs) \<Rightarrow> (idCounter', LiveVariableNode (attrs this) (Some chs))))"

text \<open>
  \<open>refreshChildren(session, resolve)\<close> works in two stages. Its synchronous part
  checks the session, the expansion flag and the variables reference, and calls
  \<open>customRequest\<close> when they allow it; the rest runs later, when the promise of the
  request is settled. \<open>requestsChildren\<close> is the check of the synchronous part: whether
  a call issues a request. The parameter \<open>session\<close> may be \<open>undefined\<close> (\<open>None\<close>).
\<close>

definition requestsChildren :: "DebugSession option \<Rightarrow> LiveVariableNode \<Rightarrow> bool" where
  "requestsChildren sess this =
     (case sess of
        None \<Rightarrow> False
      | Some s \<Rightarrow>
          if session (attrs this) \<noteq> Some s then False
          else if expanded (attrs this) \<and> variablesReference (attrs this) > 0 then True
          else False)"

text \<open>
  After the rebuild, the fulfilment callback calls \<open>refreshChildren\<close> on every expanded
  child, in order. Each of these calls runs its synchronous part at once, so the requests
  of all expanded children are issued before any of them is answered.
  \<open>issueRequests\<close> is that loop; it appends the \<open>variablesReference\<close> of every request
  it issues to the log of requests.
\<close>

fun issueRequests :: "DebugSession option \<Rightarrow> LiveVariableNode list \<Rightarrow> int list \<Rightarrow> int list" where
  "issueRequests sess [] requests = requests"
| "issueRequests sess (child # rest) requests =
     issueRequests sess rest
       (if expanded (attrs child) \<and> requestsChildren sess child
        then requests @ [variablesReference (attrs child)]
        else requests)"

text \<open>
  The callbacks of one request, for the node \<open>this\<close> that issued it. On a rejection the
  node is left as it is. On a fulfilment the children are rebuilt and the requests of the
  expanded children are issued. The flag tells the two cases apart. The state is the
  static id counter with the log of requests. The source fills \<open>oldStateMap\<close> when it
  issues the request and reads it in the callback; no callback of another node writes to
  the children of a node whose answer is pending, so \<open>rebuildChildren\<close> computes the
  saved states from the node as it is when the answer arrives.
\<close>

definition settleRequest ::
  "Adapter \<Rightarrow> DebugSession \<Rightarrow> LiveVariableNode \<Rightarrow> nat \<times> int list
     \<Rightarrow> (LiveVariableNode \<times> bool) \<times> nat \<times> int list" where
  "settleRequest adapter s this st =
     (case st of
        (idCounter, requests) \<Rightarrow>
          (case adapter (variablesReference (attrs this)) of
             Rejected \<Rightarrow> ((this, False), idCounter, requests)
           | Fulfilled result \<Rightarrow>
               (case rebuildChildren this s idCounter result of
                  (c1, this') \<Rightarrow>
                    ((this', True), c1, issueRequests (Some s) (getChildren this') requests))))"

text \<open>
  The adapter answers the requests in the order in which they were issued.
  \<open>settleRequests\<close> takes the answers to the requests of a list of nodes, in order.
\<close>

fun settleRequests ::
  "Adapter \<Rightarrow> DebugSession \<Rightarrow> LiveVariableNode list \<Rightarrow> nat \<times> int list
     \<Rightarrow> (LiveVariableNode \<times> bool) list \<times> nat \<times> int list" where
  "settleRequests adapter s [] st = ([], st)"
| "settleRequests adapter s (node # rest) st =
     (case settleRequest adapter s node st of
        (settled, st') \<Rightarrow>
          (case settleRequests adapter s rest st' of
             (others, st'') \<Rightarrow> (settled # others, st'')))"

text \<open>
  The nodes whose requests were issued while the requests of \<open>settled\<close> were answered:
  the expanded children that passed the check, of the nodes whose request was fulfilled.
\<close>

definition awaited :: "DebugSession \<Rightarrow> (LiveVariableNode \<times> bool) list \<Rightarrow> LiveVariableNode list" where
  "awaited s settled =
     concat
       (map (\<lambda>(node, fulfilled).
               if fulfilled
               then filter (\<lambda>child. expanded (attrs child) \<and> requestsChildren (Some s) child)
                      (getChildren node)
               else [])
          settled)"

text \<open>
  The source updates every node in place. Here the refreshed nodes come back as a list, in
  the order of \<open>awaited\<close>, and \<open>putBack\<close> stores each of them where it was taken from.
\<close>

fun replaceAwaited ::
  "DebugSession \<Rightarrow> LiveVariableNode list \<Rightarrow> LiveVariableNode list
     \<Rightarrow> LiveVariableNode list \<times> LiveVariableNode list" where
  "replaceAwaited s [] answered = ([], answered)"
| "replaceAwaited s (child # rest) answered =
     (if expanded (attrs child) \<and> requestsChildren (Some s) child
      then (case answered of
              [] \<Rightarrow> (child # rest, [])
            | child' # answered' \<Rightarrow>
                (case replaceAwaited s rest answered' of
                   (rest', left) \<Rightarrow> (child' # rest', left)))
      else (case replaceAwaited s rest answered of
              (rest', left) \<Rightarrow> (child # rest', left)))"

fun putBack ::
  "DebugSession \<Rightarrow> (LiveVariableNode \<times> bool) list \<Rightarrow> LiveVariableNode list
     \<Rightarrow> LiveVariableNode list" where
  "putBack s [] answered = []"
| "putBack s ((node, fulfilled) # rest) answered =
     (if fulfilled
      then (case replaceAwaited s (getChildren node) answered of
              (kids, left) \<Rightarrow>
                LiveVariableNode (attrs node) (map_option (\<lambda>_. kids) (children node))
                  # putBack s rest left)
      else node # putBack s rest answered)"

text \<open>
  The answers come to an end because a new child is expanded only when it took over the
  children of an old child of the same name, and those lie one level deeper in the tree
  than the node that was rebuilt. \<open>height\<close> measures that depth.
\<close>

fun height :: "LiveVariableNode \<Rightarrow> nat" where
  "height (LiveVariableNode f cs) =
     (case cs of None \<Rightarrow> 0 | Some l \<Rightarrow> Suc (fold max (map height l) 0))"

lemma fold_max_ge: "a \<le> fold max xs (a::nat)"
proof (induction xs arbitrary: a)
  case Nil
  then show ?case by simp
next
  case (Cons x xs)
  have "a \<le> max x a" by simp
  also have "\<dots> \<le> fold max xs (max x a)" by (rule Cons.IH)
  finally show ?case by simp
qed

lemma fold_max_mem: "x \<in> set xs \<Longrightarrow> x \<le> fold max xs (a::nat)"
proof (induction xs arbitrary: a)
  case Nil
  then show ?case by simp
next
  case (Cons y ys)
  show ?case
  proof (cases "x = y")
    case True
    have "max y a \<le> fold max ys (max y a)" by (rule fold_max_ge)
    then show ?thesis using True by simp
  next
    case False
    then show ?thesis using Cons by simp
  qed
qed

lemma height_child: "c \<in> set (getChildren this) \<Longrightarrow> height c < height this"
proof (cases this)
  case (LiveVariableNode f cs)
  assume c: "c \<in> set (getChildren this)"
  then obtain l where l: "cs = Some l" "c \<in> set l"
    using LiveVariableNode by (cases cs) (auto simp: getChildren_def)
  then have "height c \<le> fold max (map height l) 0"
    by (intro fold_max_mem) simp
  then show ?thesis using LiveVariableNode l by simp
qed

lemma height_children_eq: "children a = children b \<Longrightarrow> height a = height b"
  by (cases a; cases b) simp

lemma own_assignState:
  "own (assignState m k' st) k = Some s \<Longrightarrow> own m k = Some s \<or> s = st"
  by (simp add: assignState_def split: if_splits)

lemma proto_assignState:
  "proto (assignState m k' st) = Some s \<Longrightarrow> proto m = Some s \<or> s = st"
  by (simp add: assignState_def split: if_splits)

lemma own_saved:
  "own (foldl (\<lambda>m child. assignState m (name (attrs child)) (stateOf child)) m0 cs) k = Some s
     \<Longrightarrow> own m0 k = Some s \<or> s \<in> stateOf ` set cs"
proof (induction cs arbitrary: m0)
  case Nil
  then show ?case by simp
next
  case (Cons c cs)
  from Cons.prems
  have "own (assignState m0 (name (attrs c)) (stateOf c)) k = Some s \<or> s \<in> stateOf ` set cs"
    by (intro Cons.IH) simp
  then show ?case
    using own_assignState[of m0 "name (attrs c)" "stateOf c" k s] by auto
qed

lemma proto_saved:
  "proto (foldl (\<lambda>m child. assignState m (name (attrs child)) (stateOf child)) m0 cs) = Some s
     \<Longrightarrow> proto m0 = Some s \<or> s \<in> stateOf ` set cs"
proof (induction cs arbitrary: m0)
  case Nil
  then show ?case by simp
next
  case (Cons c cs)
  from Cons.prems
  have "proto (assignState m0 (name (attrs c)) (stateOf c)) = Some s \<or> s \<in> stateOf ` set cs"
    by (intro Cons.IH) simp
  then show ?case
    using proto_assignState[of m0 "name (attrs c)" "stateOf c" s] by auto
qed

lemma lookupState_Found:
  "lookupState m k = Found s \<Longrightarrow> own m k = Some s \<or> proto m = Some s"
  by (auto simp: lookupState_def inheritedFromObject_def split: if_splits option.splits)

lemma lookup_saveStates_Found:
  assumes "lookupState (saveStates cs) k = Found s"
  shows "s \<in> stateOf ` set cs"
proof -
  have "own (saveStates cs) k = Some s \<or> proto (saveStates cs) = Some s"
    using assms by (rule lookupState_Found)
  then show ?thesis
    using own_saved[of emptyStateMap cs k s] proto_saved[of emptyStateMap cs s]
    by (auto simp: saveStates_def emptyStateMap_def)
qed

lemma makeChild_expanded:
  assumes "makeChild this s (saveStates cs) c v = (c', ch)" and "expanded (attrs ch)"
  shows "\<exists>old \<in> set cs. children ch = children old"
proof -
  obtain st where "lookupState (saveStates cs) (var_name v) = Found st"
    and "children ch = sv_children st"
    using assms
    by (auto simp: makeChild_def newNode_def Let_def split: Lookup.splits)
  then show ?thesis
    using lookup_saveStates_Found[of cs "var_name v" st] by (auto simp: stateOf_def)
qed

lemma makeChildren_expanded:
  "makeChildren this s (saveStates cs) c vs = (c', chs) \<Longrightarrow> ch \<in> set chs
     \<Longrightarrow> expanded (attrs ch) \<Longrightarrow> \<exists>old \<in> set cs. children ch = children old"
proof (induction vs arbitrary: c c' chs)
  case Nil
  then show ?case by simp
next
  case (Cons v vs)
  then show ?case
    by (auto split: prod.splits dest: makeChild_expanded)
qed

lemma rebuild_expanded_height:
  assumes "rebuildChildren this s c vars = (c1, this')"
    and "child \<in> set (getChildren this')" and "expanded (attrs child)"
  shows "height child < height this"
proof -
  obtain vs chs where "makeChildren this s (saveStates (getChildren this)) c vs = (c1, chs)"
    and "child \<in> set chs"
    using assms(1,2)
    by (auto simp: rebuildChildren_def getChildren_def split: option.splits if_splits prod.splits)
  then obtain old where "old \<in> set (getChildren this)" "children child = children old"
    using makeChildren_expanded assms(3) by blast
  then show ?thesis
    using height_child[of old this] height_children_eq[of child old] by simp
qed

lemma settleRequest_height:
  assumes "settleRequest adapter s node st = ((node', True), st')"
    and "child \<in> set (getChildren node')" and "expanded (attrs child)"
  shows "height child < height node"
proof -
  obtain c rq where st: "st = (c, rq)" by (cases st)
  obtain result c1 where "rebuildChildren node s c result = (c1, node')"
    using assms(1) st
    by (auto simp: settleRequest_def split: liveVariablesReply.splits prod.splits)
  then show ?thesis using assms(2,3) by (rule rebuild_expanded_height)
qed

lemma settleRequests_height:
  "settleRequests adapter s nodes st = (settled, st') \<Longrightarrow> child \<in> set (awaited s settled)
     \<Longrightarrow> \<exists>node \<in> set nodes. height child < height node"
proof (induction nodes arbitrary: st settled st')
  case Nil
  then show ?case by (simp add: awaited_def)
next
  case (Cons node rest)
  obtain node' fulfilled st1 where a: "settleRequest adapter s node st = ((node', fulfilled), st1)"
    by (cases "settleRequest adapter s node st") auto
  obtain others st2 where b: "settleRequests adapter s rest st1 = (others, st2)"
    by (cases "settleRequests adapter s rest st1") auto
  have settled: "settled = (node', fulfilled) # others" using Cons.prems(1) a b by simp
  then consider
      (here) "fulfilled" "child \<in> set (getChildren node')" "expanded (attrs child)"
    | (there) "child \<in> set (awaited s others)"
    using Cons.prems(2) by (auto simp: awaited_def split: if_splits)
  then show ?case
  proof cases
    case here
    then have "height child < height node"
      using settleRequest_height[of adapter s node st node' st1 child] a by simp
    then show ?thesis by auto
  next
    case there
    from Cons.IH[OF b there] show ?thesis by auto
  qed
qed

lemma fold_max_le: "(\<And>x. x \<in> set xs \<Longrightarrow> x \<le> b) \<Longrightarrow> a \<le> b \<Longrightarrow> fold max xs (a::nat) \<le> b"
  by (induction xs arbitrary: a) auto

text \<open>
  The answers to the requests of \<open>nodes\<close>, and to all requests that follow from them:
  first the requests of \<open>nodes\<close> are settled, then those of the nodes awaited since, and
  so on down the tree.
\<close>

function refreshLevel ::
  "Adapter \<Rightarrow> DebugSession \<Rightarrow> LiveVariableNode list \<Rightarrow> nat \<times> int list
     \<Rightarrow> LiveVariableNode list \<times> nat \<times> int list" where
  "refreshLevel adapter s nodes st =
     (if nodes = [] then ([], st)
      else
        (case settleRequests adapter s nodes st of
           (settled, st') \<Rightarrow>
             (case refreshLevel adapter s (awaited s settled) st' of
                (answered, st'') \<Rightarrow> (putBack s settled answered, st''))))"
  by pat_completeness auto
termination
proof (relation "measure (\<lambda>(adapter, s, nodes, st).
                    if nodes = [] then 0 else Suc (fold max (map height nodes) 0))")
  show "wf (measure (\<lambda>(adapter, s, nodes, st).
                    if nodes = [] then 0 else Suc (fold max (map height nodes) 0)))"
    by simp
next
  fix adapter s and nodes :: "LiveVariableNode list" and st :: "nat \<times> int list" and settled st'
  assume ne: "nodes \<noteq> []" and eq: "(settled, st') = settleRequests adapter s nodes st"
  have "fold max (map height (awaited s settled)) 0 < fold max (map height nodes) 0"
    if some: "awaited s settled \<noteq> []"
  proof -
    obtain k where k: "k \<in> set (awaited s settled)" using some by (cases "awaited s settled") auto
    obtain n where n: "n \<in> set nodes" "height k < height n"
      using settleRequests_height[OF eq[symmetric] k] by blast
    have top: "height n \<le> fold max (map height nodes) 0"
      using n(1) by (intro fold_max_mem) simp
    then have pos: "0 < fold max (map height nodes) 0" using n(2) by simp
    have "fold max (map height (awaited s settled)) 0 \<le> fold max (map height nodes) 0 - 1"
    proof (rule fold_max_le)
      fix x assume "x \<in> set (map height (awaited s settled))"
      then obtain c where c: "c \<in> set (awaited s settled)" "x = height c" by auto
      obtain m where m: "m \<in> set nodes" "height c < height m"
        using settleRequests_height[OF eq[symmetric] c(1)] by blast
      have "height m \<le> fold max (map height nodes) 0"
        using m(1) by (intro fold_max_mem) simp
      then show "x \<le> fold max (map height nodes) 0 - 1" using m(2) c(2) by simp
    qed simp
    then show ?thesis using pos by simp
  qed
  then show "((adapter, s, awaited s settled, st'), (adapter, s, nodes, st))
      \<in> measure (\<lambda>(adapter, s, nodes, st).
                    if nodes = [] then 0 else Suc (fold max (map height nodes) 0))"
    using ne by auto
qed

declare refreshLevel.simps [simp del]

text \<open>
  \<open>refreshChildren\<close> as a whole: the synchronous part, then the answers. Returning is
  the call of \<open>resolve\<close>.
\<close>

fun refreshChildren ::
  "Adapter \<Rightarrow> DebugSession option \<Rightarrow> LiveVariableNode \<Rightarrow> nat \<times> int list
     \<Rightarrow> LiveVariableNode \<times> nat \<times> int list" where
  "refreshChildren adapter sess this (idCounter, requests) =
     (case sess of
        None \<Rightarrow> (this, idCounter, requests)
      | Some s \<Rightarrow>
          if requestsChildren sess this
          then
            (case refreshLevel adapter s [this]
                    (idCounter, requests @ [variablesReference (attrs this)]) of
               (answered, st') \<Rightarrow>
                 (case answered of
                    [] \<Rightarrow> (this, st')
                  | this' # others \<Rightarrow> (this', st')))
          else (this, idCounter, requests))"

declare refreshChildren.simps [simp del]

subsection \<open>reset\<close>

fun reset :: "bool \<Rightarrow> LiveVariableNode \<Rightarrow> LiveVariableNode" where
  "reset valuesToo (LiveVariableNode f cs) =
     LiveVariableNode
       (if valuesToo
        then f\<lparr> session := None, value' := '''', type' := '''', prevValue := Some '''',
                variablesReference := 0 \<rparr>
        else f\<lparr> session := None \<rparr>)
       (map_option (map (reset valuesToo)) cs)"

section \<open>The controller (live-watch.ts, class LiveWatchWebviewProvider)\<close>

subsection \<open>Value formats (handleUpdateFormat)\<close>

text \<open>
  \<open>handleUpdateFormat\<close> computes the new expression of a root child in two steps:
  \<open>expr.replace(/,[hxbod]$/, '')\<close>, then \<open>expr += ',' + format\<close> when \<open>format\<close> is not
  empty. The regular expression has no flags, so \<open>$\<close> matches at the end of the string
  only: the replacement removes the last two characters when they are a comma and one of
  \<open>h x b o d\<close>.
\<close>

definition stripFormat :: "string \<Rightarrow> string" where
  "stripFormat e =
     (if 2 \<le> length e \<and> e ! (length e - 2) = CHR '','' \<and> e ! (length e - 1) \<in> set ''hxbod''
      then take (length e - 2) e else e)"

definition updateFormatExpr :: "string \<Rightarrow> string \<Rightarrow> string" where
  "updateFormatExpr e format =
     (let e' = stripFormat e in if format \<noteq> '''' then e' @ '','' @ format else e')"

subsection \<open>Refresh rate and polling period (setRefreshRate, debugSessionStarted)\<close>

text \<open>
  JavaScript numbers are modelled as real numbers; a configuration value is a number
  read from JSON, so it is finite. The state of the provider is the static \<open>session\<close>,
  the fields \<open>timeoutMs\<close>, \<open>isStopped\<close> and \<open>currentRefreshRate\<close>, the tree, the
  delay of the pending timer (\<open>None\<close> when no timer is armed), whether \<open>webviewView\<close>
  is set, and the \<open>update\<close> messages posted to the webview so far, each with its
  \<open>variables\<close> and its \<open>hasSession\<close>.
\<close>

definition defaultRefreshRate :: real where "defaultRefreshRate = 300"
definition minRefreshRate :: real where "minRefreshRate = 200"
definition maxRefreshRate :: real where "maxRefreshRate = 5000"

record ProviderState =
  liveSession :: "DebugSession option"
  timeoutMs :: real
  isStopped :: bool
  currentRefreshRate :: real
  variables :: LiveVariableNode
  timer :: "real option"
  webviewView :: bool
  posted :: "(VariableNode list \<times> bool) list"

text \<open>The argument is the configured \<open>cortex-debug.liveWatchRefreshRate\<close>, if any.\<close>

definition setRefreshRate :: "ProviderState \<Rightarrow> real option \<Rightarrow> ProviderState" where
  "setRefreshRate st configured =
     (let rate = (case configured of None \<Rightarrow> defaultRefreshRate | Some r \<Rightarrow> r);
          rate1 = max rate minRefreshRate;
          rate2 = min rate1 maxRefreshRate
      in st\<lparr>currentRefreshRate := rate2\<rparr>)"

record LiveWatchConfig =
  enabled :: bool
  samplesPerSecond :: "real option"

definition startTimer :: "ProviderState \<Rightarrow> real \<Rightarrow> ProviderState" where
  "startTimer st subtract = st\<lparr>timer := Some (timeoutMs st - subtract)\<rparr>"

text \<open>
  \<open>updateWebview\<close> does nothing without a webview. Otherwise it projects every root
  child with \<open>toWebViewNode(0, cwd)\<close>, which stores the current value of every projected
  node as its previous value, and posts the projections. \<open>cwdOf\<close> gives the
  \<open>configuration.cwd\<close> of a session, if it has one; without a session \<open>cwd\<close> is
  \<open>undefined\<close>.
\<close>

definition updateWebview ::
  "(string \<Rightarrow> string \<Rightarrow> string) \<Rightarrow> (DebugSession \<Rightarrow> string option) \<Rightarrow> ProviderState
     \<Rightarrow> ProviderState" where
  "updateWebview getPathRelative cwdOf st =
     (if \<not> webviewView st then st
      else
        (let cwd = (case liveSession st of None \<Rightarrow> None | Some s \<Rightarrow> cwdOf s);
             projected = map (toWebViewNode getPathRelative 0 cwd) (getChildren (variables st))
         in st\<lparr> variables :=
                   LiveVariableNode (attrs (variables st))
                     (map_option (\<lambda>_. map snd projected) (children (variables st))),
                 posted := posted st @ [(map fst projected, liveSession st \<noteq> None)] \<rparr>))"

text \<open>
  \<open>debugSessionStarted(session)\<close>: the fourth argument is the session that started,
  the fifth its \<open>configuration.liveWatch\<close> (possibly \<open>undefined\<close>). When live watch
  is not enabled for that session, the webview is updated if no session is attached and
  nothing else happens; when a session is attached already, the new one is refused with
  an error message.
\<close>

definition debugSessionStarted ::
  "(string \<Rightarrow> string \<Rightarrow> string) \<Rightarrow> (DebugSession \<Rightarrow> string option) \<Rightarrow> ProviderState
     \<Rightarrow> DebugSession \<Rightarrow> LiveWatchConfig option \<Rightarrow> ProviderState" where
  "debugSessionStarted getPathRelative cwdOf st sess liveWatch =
     (case liveWatch of
        None \<Rightarrow> (if liveSession st = None then updateWebview getPathRelative cwdOf st else st)
      | Some lw \<Rightarrow>
          if \<not> enabled lw
          then (if liveSession st = None then updateWebview getPathRelative cwdOf st else st)
          else if liveSession st \<noteq> None then st
          else
            (let sps = max 1 (min 20 (case samplesPerSecond lw of None \<Rightarrow> 4 | Some n \<Rightarrow> n))
             in startTimer
                  (st\<lparr> liveSession := Some sess, isStopped := True,
                        variables := reset True (variables st),
                        timeoutMs := 1000 / sps \<rparr>)
                  0))"

text \<open>The provider as its constructor leaves it, before the saved state is restored.\<close>

definition initialProvider :: "real option \<Rightarrow> ProviderState" where
  "initialProvider configured =
     setRefreshRate
       \<lparr> liveSession = None, timeoutMs = 250, isStopped = True,
         currentRefreshRate = defaultRefreshRate,
         variables = snd (newNode 0 None '''' '''' '''' '''' 0), timer = None,
         webviewView = False, posted = [] \<rparr>
       configured"

section \<open>The webview script (class LiveWatchView)\<close>

text \<open>
  \<open>compareNodes\<close> is the local function of \<open>isStructureChanged\<close>; \<open>compareLoop\<close> is
  its \<open>for\<close> loop, which runs over both arrays in step once their lengths are known to
  agree.
\<close>

function (sequential) compareNodes :: "VariableNode list \<Rightarrow> VariableNode list \<Rightarrow> bool"
  and compareLoop :: "VariableNode list \<Rightarrow> VariableNode list \<Rightarrow> bool" where
  "compareNodes oldNodes newNodes =
     (if length oldNodes \<noteq> length newNodes then True else compareLoop oldNodes newNodes)"
| "compareLoop (VariableNode old oldKids # oldRest) (VariableNode new newKids # newRest) =
     (if v_id old \<noteq> v_id new \<or> v_name old \<noteq> v_name new \<or> v_expr old \<noteq> v_expr new
         \<or> v_hasChildren old \<noteq> v_hasChildren new \<or> v_expanded old \<noteq> v_expanded new
         \<or> v_depth old \<noteq> v_depth new
      then True
      else if compareNodes (case oldKids of None \<Rightarrow> [] | Some l \<Rightarrow> l)
                (case newKids of None \<Rightarrow> [] | Some l \<Rightarrow> l)
      then True
      else compareLoop oldRest newRest)"
| "compareLoop [] newNodes = False"
| "compareLoop oldNodes [] = False"
  by pat_completeness auto
termination
  apply (relation "measure (\<lambda>x. case x of
                              Inl (oldNodes, newNodes) \<Rightarrow> 2 * size_list size oldNodes + 1
                            | Inr (oldNodes, newNodes) \<Rightarrow> 2 * size_list size oldNodes)")
     apply (auto split: option.splits)
  done

definition isStructureChanged :: "VariableNode list \<Rightarrow> VariableNode list \<Rightarrow> bool" where
  "isStructureChanged oldVars newVars =
     (if length oldVars \<noteq> length newVars then True else compareNodes oldVars newVars)"

text \<open>
  The view keeps the last variables, \<open>hasSession\<close> and the id of the node being edited
  (\<open>None\<close> is \<open>null\<close>). Of the document, \<open>addExpressionShown\<close> records whether the
  root element holds the input row for a new expression (\<open>.add-expression-container\<close>).
  What else \<open>handleMessage\<close> does to the document is returned as an effect.
  \<open>render\<close> and \<open>renderHint\<close> empty the root element first, so the input row is gone
  after them. \<open>showAddExpressionInput\<close> only focuses the input row when there is one
  (\<open>FocusAddExpressionInput\<close>); otherwise it appends one and sets \<open>editingNodeId\<close> to
  \<open>add-expression\<close> (\<open>ShowAddExpressionInput\<close>, whose flag says whether the root
  element was emptied first).
\<close>

record ViewState =
  view_variables :: "VariableNode list"
  view_hasSession :: bool
  editingNodeId :: "string option"
  addExpressionShown :: bool

datatype LiveWatchMessage =
    Update "VariableNode list option" "bool option"
  | Clear
  | Hint "string option"
  | AddExpression

datatype Effect =
    Render
  | UpdateVariableValues "VariableNode list"
  | RenderHint string
  | ShowAddExpressionInput bool
  | FocusAddExpressionInput
  | NoEffect

definition handleMessage :: "ViewState \<Rightarrow> LiveWatchMessage \<Rightarrow> ViewState \<times> Effect" where
  "handleMessage view message =
     (case message of
        Update vars session_flag \<Rightarrow>
          (let oldVariables = view_variables view;
               view' = view\<lparr> view_variables := (case vars of None \<Rightarrow> [] | Some vs \<Rightarrow> vs),
                             view_hasSession := (case session_flag of None \<Rightarrow> False | Some b \<Rightarrow> b) \<rparr>
           in if editingNodeId view = None \<or> editingNodeId view = Some ''''
              then (if isStructureChanged oldVariables (view_variables view')
                    then (view'\<lparr>addExpressionShown := False\<rparr>, Render)
                    else (view', UpdateVariableValues (view_variables view')))
              else (view', NoEffect))
      | Clear \<Rightarrow>
          (view\<lparr> view_variables := [], view_hasSession := False, addExpressionShown := False \<rparr>,
           Render)
      | Hint hintText \<Rightarrow>
          (view\<lparr>addExpressionShown := False\<rparr>,
           RenderHint (case hintText of None \<Rightarrow> '''' | Some t \<Rightarrow> t))
      | AddExpression \<Rightarrow>
          (let emptied = (view_variables view = [])
           in if addExpressionShown view \<and> \<not> emptied
              then (view, FocusAddExpressionInput)
              else (view\<lparr> editingNodeId := Some ''add-expression'', addExpressionShown := True \<rparr>,
                    ShowAddExpressionInput emptied)))"

text \<open>
  The tracked part of a variable tree, after the words of the specification: the fields
  \<open>id\<close>, \<open>name\<close>, \<open>expr\<close>, \<open>hasChildren\<close>, \<open>expanded\<close> and \<open>depth\<close> at every
  node, and the shape (an absent \<open>children\<close> array counts as an empty one).
\<close>

datatype Skeleton =
  Skeleton "string option" string string bool bool int "Skeleton list"

fun skeleton :: "VariableNode \<Rightarrow> Skeleton" where
  "skeleton (VariableNode f kids) =
     Skeleton (v_id f) (v_name f) (v_expr f) (v_hasChildren f) (v_expanded f) (v_depth f)
       (case kids of None \<Rightarrow> [] | Some l \<Rightarrow> map skeleton l)"

section \<open>Notions used in the statements\<close>

text \<open>
  What the specification calls the persistent part of a node: its name, its expression
  and its expansion flag, for the node and all its descendants in order.
\<close>

fun persistent :: "LiveVariableNode \<Rightarrow> NodeState" where
  "persistent (LiveVariableNode f cs) =
     NodeState (name f) (expr f) (expanded f)
       (case cs of None \<Rightarrow> [] | Some l \<Rightarrow> map persistent l)"

text \<open>
  Every node that the class constructs below another one receives that node as parent
  (\<open>addChild\<close>, \<open>deSerialize\<close>, \<open>refreshChildren\<close>). \<open>descendantsHaveParent\<close> says
  so for all proper descendants of a node.
\<close>

fun descendantsHaveParent :: "LiveVariableNode \<Rightarrow> bool" where
  "descendantsHaveParent (LiveVariableNode f cs) =
     (case cs of
        None \<Rightarrow> True
      | Some l \<Rightarrow> list_all (\<lambda>c. parent (attrs c) \<noteq> None \<and> descendantsHaveParent c) l)"

text \<open>A subtree without values: no value, no type and no variables reference anywhere.\<close>

fun unvalued :: "LiveVariableNode \<Rightarrow> bool" where
  "unvalued (LiveVariableNode f cs) =
     (value' f = '''' \<and> type' f = '''' \<and> variablesReference f = 0 \<and>
      (case cs of None \<Rightarrow> True | Some l \<Rightarrow> list_all unvalued l))"

text \<open>The format letters that the context menu of the webview offers or the pattern strips.\<close>

definition formats :: "string set" where
  "formats = {''h'', ''x'', ''b'', ''o'', ''d''}"

text \<open>
  The configured samples per second, 4 when absent, clamped to the range from 1 to 20.
\<close>

definition clampSamples :: "real option \<Rightarrow> real" where
  "clampSamples sps = max 1 (min 20 (case sps of None \<Rightarrow> 4 | Some n \<Rightarrow> n))"

text \<open>
  The condition under which the specification says children are fetched: a session is
  given, it is the one recorded in the node, the node is expanded and its variables
  reference is positive.
\<close>

definition shouldFetch :: "DebugSession option \<Rightarrow> LiveVariableNode \<Rightarrow> bool" where
  "shouldFetch sess this =
     (sess \<noteq> None \<and> session (attrs this) = sess \<and> expanded (attrs this) \<and>
      0 < variablesReference (attrs this))"

section \<open>Example trees\<close>

text \<open>
  The root as the provider constructs it, and a watch list built with \<open>addNewExpr\<close>:
  the expressions \<open>x\<close>, \<open>a\<close> and \<open>b\<close>. \<open>exGrandchild\<close> is a node below the second
  root child.
\<close>

definition exRoot :: LiveVariableNode where
  "exRoot = snd (newNode 0 None '''' '''' '''' '''' 0)"

definition exTree :: "nat \<times> LiveVariableNode" where
  "exTree =
     (case addNewExpr 1 exRoot ''x'' of
        (r1, c1, t1) \<Rightarrow>
          (case addNewExpr c1 t1 ''a'' of
             (r2, c2, t2) \<Rightarrow>
               (case addNewExpr c2 t2 ''b'' of (r3, c3, t3) \<Rightarrow> (c3, t3))))"

definition exGrandchild :: LiveVariableNode where
  "exGrandchild =
     snd (newNode 4 (Some (selfRef (getChildren (snd exTree) ! 1))) ''a'' ''a'' ''7'' ''int'' 0)"

text \<open>
  The same watch list after \<open>rename\<close> gave the third root child the name of the second:
  two root children named \<open>a\<close>, with different ids.
\<close>

definition exDupTree :: LiveVariableNode where
  "exDupTree =
     LiveVariableNode (attrs (snd exTree))
       (Some ((getChildren (snd exTree))[2 := rename ''a'' (getChildren (snd exTree) ! 2)]))"

text \<open>
  The watch list with its second expression expanded and one node below it, and that
  second expression after an evaluation changed its value from 7 to 8.
\<close>

definition exNested :: LiveVariableNode where
  "exNested =
     LiveVariableNode (attrs exRoot)
       (Some [getChildren (snd exTree) ! 0,
              LiveVariableNode ((attrs (getChildren (snd exTree) ! 1))\<lparr>expanded := True\<rparr>)
                (Some [exGrandchild]),
              getChildren (snd exTree) ! 2])"

definition exValued :: LiveVariableNode where
  "exValued =
     LiveVariableNode
       ((attrs (getChildren (snd exTree) ! 1))\<lparr> value' := ''8'', prevValue := Some ''7'' \<rparr>)
       None"

text \<open>Variables as the webview receives them, and a view that shows one of them.\<close>

definition exVar :: "string \<Rightarrow> bool \<Rightarrow> VariableNode list option \<Rightarrow> VariableNode" where
  "exVar v c kids =
     VariableNode
       \<lparr> v_id = Some ''node_1'', v_name = ''x'', v_expr = ''x'', v_value = v, v_type = ''int'',
         v_hasChildren = False, v_expanded = False, v_changed = c, v_isRoot = True, v_depth = 0 \<rparr>
       kids"

definition exView :: ViewState where
  "exView = \<lparr> view_variables = [exVar ''1'' False None], view_hasSession = True,
              editingNodeId = None, addExpressionShown = False \<rparr>"

text \<open>
  A provider to which session 1 is attached, with the default four samples per second,
  and a provider without a session that has a webview and watches \<open>exValued\<close>.
\<close>

definition exAttached :: ProviderState where
  "exAttached =
     debugSessionStarted (\<lambda>dir file. file) (\<lambda>s. None) (initialProvider None) 1
       (Some \<lparr>enabled = True, samplesPerSecond = None\<rparr>)"

definition exShown :: ProviderState where
  "exShown =
     (initialProvider None)
       \<lparr> variables := LiveVariableNode (attrs exRoot) (Some [exValued]), webviewView := True \<rparr>"

text \<open>
  An expanded root child of session 1 with variables reference 5; \<open>exBelowS\<close> and
  \<open>exBelowF\<close> are the parent references of the nodes one and two levels below it. \<open>exStruct\<close> has the
  children \<open>f\<close> (expanded, with a child of its own) and \<open>g\<close>; \<open>exTwins\<close> has two
  children named \<open>f\<close>. \<open>exVariable\<close> is a variable of the adapter's reply.
\<close>

definition exBelowS :: ParentRef where
  "exBelowS = ParentRef (Some (ParentRef None))"

definition exBelowF :: ParentRef where
  "exBelowF = ParentRef (Some exBelowS)"

definition exKid ::
  "ParentRef \<Rightarrow> string \<Rightarrow> string \<Rightarrow> string \<Rightarrow> bool \<Rightarrow> LiveVariableNode list option
     \<Rightarrow> LiveVariableNode" where
  "exKid p ident nm v ex kids =
     LiveVariableNode
       \<lparr> session = Some 1, prevValue = Some v, expanded = ex, id' = Some ident,
         parent = Some p, name = nm, expr = nm,
         value' = v, type' = ''int'', variablesReference = (if ex then 7 else 0) \<rparr>
       kids"

definition exParent :: "LiveVariableNode list \<Rightarrow> LiveVariableNode" where
  "exParent kids =
     LiveVariableNode
       \<lparr> session = Some 1, prevValue = Some '''', expanded = True, id' = Some ''node_1'',
         parent = Some (ParentRef None), name = ''s'', expr = ''s'',
         value' = ''{...}'', type' = ''struct s'', variablesReference = 5 \<rparr>
       (Some kids)"

definition exVariable :: "string \<Rightarrow> string \<Rightarrow> int \<Rightarrow> Variable" where
  "exVariable nm v reference =
     \<lparr> var_name = nm, var_evaluateName = None, var_value = Some v, var_type = Some ''int'',
       var_variablesReference = Some reference \<rparr>"

definition exStruct :: LiveVariableNode where
  "exStruct =
     exParent
       [exKid exBelowS ''node_2'' ''f'' ''1'' True
          (Some [exKid exBelowF ''node_4'' ''x'' ''0'' False None]),
        exKid exBelowS ''node_3'' ''g'' ''2'' False None]"

definition exTwins :: LiveVariableNode where
  "exTwins =
     exParent
       [exKid exBelowS ''node_2'' ''f'' ''1'' False None,
        exKid exBelowS ''node_3'' ''f'' ''2'' False None]"

text \<open>
  An expanded root child of session 1 whose children have not been fetched yet, and an
  adapter that answers its request with the variables \<open>constructor\<close> and \<open>count\<close>.
\<close>

definition exFresh :: LiveVariableNode where
  "exFresh = exParent []"

definition exFields :: Adapter where
  "exFields r =
     (if r = 5
      then Fulfilled (Some [exVariable ''constructor'' ''9'' 0, exVariable ''count'' ''3'' 0])
      else Rejected)"

text \<open>
  A tree three levels deep, all of it expanded, and an adapter that answers the request
  for each level.
\<close>

definition exDeep :: LiveVariableNode where
  "exDeep =
     exParent
       [exKid exBelowS ''node_2'' ''f'' ''1'' True
          (Some [exKid exBelowF ''node_4'' ''x'' ''0'' True None]),
        exKid exBelowS ''node_3'' ''h'' ''2'' True None]"

definition exReplies :: Adapter where
  "exReplies r =
     (if r = 5 then Fulfilled (Some [exVariable ''f'' ''1'' 7, exVariable ''h'' ''2'' 8])
      else if r = 7 then Fulfilled (Some [exVariable ''x'' ''0'' 9])
      else if r = 8 then Fulfilled (Some [exVariable ''z'' ''3'' 0])
      else if r = 9 then Fulfilled (Some [exVariable ''y'' ''4'' 0])
      else Rejected)"

lemma getChildren_Some [simp]: "getChildren (LiveVariableNode f (Some xs)) = xs"
  by (simp add: getChildren_def)

lemma exTree_eval:
  "snd exTree = LiveVariableNode (attrs exRoot)
     (Some [snd (newNode 1 (Some (ParentRef None)) ''x'' ''x'' '''' '''' 0),
            snd (newNode 2 (Some (ParentRef None)) ''a'' ''a'' '''' '''' 0),
            snd (newNode 3 (Some (ParentRef None)) ''b'' ''b'' '''' '''' 0)])"
  by (simp add: exTree_def exRoot_def addNewExpr_def addChild_def newNode_def getChildren_def
      selfRef_def eval_nat_numeral)

lemma exKids_eval:
  "getChildren (snd exTree) =
     [snd (newNode 1 (Some (ParentRef None)) ''x'' ''x'' '''' '''' 0),
      snd (newNode 2 (Some (ParentRef None)) ''a'' ''a'' '''' '''' 0),
      snd (newNode 3 (Some (ParentRef None)) ''b'' ''b'' '''' '''' 0)]"
  by (simp add: exTree_eval)

lemma exNested_eval:
  "exNested =
     LiveVariableNode (attrs exRoot)
       (Some
         [snd (newNode 1 (Some (ParentRef None)) ''x'' ''x'' '''' '''' 0),
          LiveVariableNode
            ((attrs (snd (newNode 2 (Some (ParentRef None)) ''a'' ''a'' '''' '''' 0)))
               \<lparr>expanded := True\<rparr>)
            (Some [snd (newNode 4 (Some (ParentRef (Some (ParentRef None)))) ''a'' ''a'' ''7''
                          ''int'' 0)]),
          snd (newNode 3 (Some (ParentRef None)) ''b'' ''b'' '''' '''' 0)])"
  by (simp add: exNested_def exGrandchild_def exTree_eval selfRef_def newNode_def)

section \<open>Only root children are mutated directly\<close>

text \<open>
  A reference to the tree root is \<open>ParentRef None\<close>: the referenced node has no parent.
\<close>

lemma isRootChild_iff: "isRootChild node \<longleftrightarrow> parent (attrs node) = Some (ParentRef None)"
proof (cases "parent (attrs node)")
  case None
  then show ?thesis by (simp add: isRootChild_def)
next
  case (Some p)
  then show ?thesis by (cases p) (simp add: isRootChild_def)
qed

text \<open>
  Claim C1. For every node whose parent is not the tree root (the root itself included,
  which has no parent), \<open>rename\<close> changes nothing, and \<open>removeChild\<close>, \<open>moveUpChild\<close>
  and \<open>moveDownChild\<close>, called on any node \<open>this\<close> with that node as argument, return
  \<open>false\<close> and leave \<open>this\<close>, its children list included, as it was. For a root child
  \<open>rename\<close> sets both \<open>name\<close> and \<open>expr\<close> to the new string.
\<close>

theorem C1_only_root_children_mutable:
  "(parent (attrs node) \<noteq> Some (ParentRef None) \<longrightarrow>
      rename nm node = node \<and>
      removeChild this (Some node) = (False, this) \<and>
      moveUpChild this (Some node) = (False, this) \<and>
      moveDownChild this (Some node) = (False, this)) \<and>
   (parent (attrs node) = Some (ParentRef None) \<longrightarrow>
      name (attrs (rename nm node)) = nm \<and> expr (attrs (rename nm node)) = nm)"
  by (simp add: isRootChild_iff rename_def removeChild_def moveUpChild_def moveDownChild_def)

text \<open>
  The theorem at \<open>exGrandchild\<close> (whose name equals that of a root child), at the root,
  and at the root child \<open>a\<close>.
\<close>

theorem C1_witness:
  "rename ''z'' exGrandchild = exGrandchild \<and>
   removeChild (snd exTree) (Some exGrandchild) = (False, snd exTree) \<and>
   moveUpChild (snd exTree) (Some exGrandchild) = (False, snd exTree) \<and>
   moveDownChild (snd exTree) (Some exGrandchild) = (False, snd exTree) \<and>
   rename ''z'' exRoot = exRoot \<and>
   removeChild (snd exTree) (Some exRoot) = (False, snd exTree) \<and>
   name (attrs (rename ''z'' (getChildren (snd exTree) ! 1))) = ''z'' \<and>
   expr (attrs (rename ''z'' (getChildren (snd exTree) ! 1))) = ''z''"
proof -
  have g: "parent (attrs exGrandchild) \<noteq> Some (ParentRef None)"
    by (simp add: exGrandchild_def newNode_def selfRef_def exTree_eval getChildren_def)
  have r: "parent (attrs exRoot) \<noteq> Some (ParentRef None)"
    by (simp add: exRoot_def newNode_def)
  have c: "parent (attrs (getChildren (snd exTree) ! 1)) = Some (ParentRef None)"
    by (simp add: exTree_eval getChildren_def newNode_def)
  show ?thesis
    using C1_only_root_children_mutable[of exGrandchild "''z''" "snd exTree"]
      C1_only_root_children_mutable[of exRoot "''z''" "snd exTree"]
      C1_only_root_children_mutable[of "getChildren (snd exTree) ! 1" "''z''" "snd exTree"]
      g r c
    by simp
qed

section \<open>Rebuilt children inherit state by name\<close>

text \<open>
  What a lookup in the table of saved states finds. A name borne by a prior child finds
  the state of the last prior child of that name; this holds for the name \<open>__proto__\<close>
  too, which is stored as the prototype and read back from there.
\<close>

lemma lookupState_Found_iff:
  "lookupState m k = Found s \<longleftrightarrow>
     (if k = ''__proto__'' then proto m = Some s else own m k = Some s)"
  by (simp add: lookupState_def inheritedFromObject_def split: option.split)

lemma own_assignState_eq:
  "own (assignState m k' st) k =
     (if k' = ''__proto__'' then own m k else if k = k' then Some st else own m k)"
  by (simp add: assignState_def)

lemma proto_assignState_eq:
  "proto (assignState m k' st) = (if k' = ''__proto__'' then Some st else proto m)"
  by (simp add: assignState_def)

lemma saveStates_snoc:
  "saveStates (cs @ [c]) = assignState (saveStates cs) (name (attrs c)) (stateOf c)"
  by (simp add: saveStates_def)

lemma lookupState_assign_same: "lookupState (assignState m k s) k = Found s"
  by (simp add: lookupState_Found_iff own_assignState_eq proto_assignState_eq)

lemma lookupState_assign_other:
  "lookupState m k = Found s \<Longrightarrow> k' \<noteq> k \<Longrightarrow> lookupState (assignState m k' s') k = Found s"
  by (simp add: lookupState_Found_iff own_assignState_eq proto_assignState_eq split: if_splits)

lemma lookup_last_match:
  "filter (\<lambda>p. name (attrs p) = nm) cs \<noteq> []
     \<Longrightarrow> lookupState (saveStates cs) nm
           = Found (stateOf (last (filter (\<lambda>p. name (attrs p) = nm) cs)))"
proof (induction cs rule: rev_induct)
  case Nil
  then show ?case by simp
next
  case (snoc c cs)
  show ?case
  proof (cases "name (attrs c) = nm")
    case True
    then show ?thesis
      using lookupState_assign_same[of "saveStates cs" nm "stateOf c"]
      by (simp add: saveStates_snoc)
  next
    case False
    then have ne: "filter (\<lambda>p. name (attrs p) = nm) cs \<noteq> []" using snoc.prems by simp
    have "lookupState (assignState (saveStates cs) (name (attrs c)) (stateOf c)) nm
            = Found (stateOf (last (filter (\<lambda>p. name (attrs p) = nm) cs)))"
      using snoc.IH[OF ne] False by (intro lookupState_assign_other) auto
    then show ?thesis using False by (simp add: saveStates_snoc)
  qed
qed

text \<open>
  A name that no prior child bears finds nothing, provided it is not a property name of
  \<open>Object.prototype\<close> and no prior child is named \<open>__proto__\<close>.
\<close>

lemma own_saved_named:
  "own (saveStates cs) k = Some s \<Longrightarrow> \<exists>c \<in> set cs. name (attrs c) = k"
proof (induction cs rule: rev_induct)
  case Nil
  then show ?case by (simp add: saveStates_def emptyStateMap_def)
next
  case (snoc c cs)
  show ?case
  proof (cases "name (attrs c) = k")
    case True
    then show ?thesis by simp
  next
    case False
    then have "own (saveStates cs) k = Some s"
      using snoc.prems by (simp add: saveStates_snoc own_assignState_eq split: if_splits)
    from snoc.IH[OF this] show ?thesis by auto
  qed
qed

lemma proto_saved_named:
  "proto (saveStates cs) = Some s \<Longrightarrow> \<exists>c \<in> set cs. name (attrs c) = ''__proto__''"
proof (induction cs rule: rev_induct)
  case Nil
  then show ?case by (simp add: saveStates_def emptyStateMap_def)
next
  case (snoc c cs)
  show ?case
  proof (cases "name (attrs c) = ''__proto__''")
    case True
    then show ?thesis by simp
  next
    case False
    then have "proto (saveStates cs) = Some s"
      using snoc.prems by (simp add: saveStates_snoc proto_assignState_eq)
    from snoc.IH[OF this] show ?thesis by auto
  qed
qed

lemma lookup_no_match:
  assumes "filter (\<lambda>p. name (attrs p) = nm) cs = []"
    and "nm \<notin> set objectPrototypeKeys" and "nm \<noteq> ''__proto__''"
    and "filter (\<lambda>p. name (attrs p) = ''__proto__'') cs = []"
  shows "lookupState (saveStates cs) nm = Falsy"
proof -
  have "own (saveStates cs) nm = None"
  proof (cases "own (saveStates cs) nm")
    case None
    then show ?thesis .
  next
    case (Some s)
    then obtain c where "c \<in> set cs" "name (attrs c) = nm" using own_saved_named by blast
    then show ?thesis using assms(1) by (auto simp: filter_empty_conv)
  qed
  moreover have "proto (saveStates cs) = None"
  proof (cases "proto (saveStates cs)")
    case None
    then show ?thesis .
  next
    case (Some s)
    then obtain c where "c \<in> set cs" "name (attrs c) = ''__proto__''"
      using proto_saved_named by blast
    then show ?thesis using assms(4) by (auto simp: filter_empty_conv)
  qed
  ultimately show ?thesis
    using assms(2,3) by (simp add: lookupState_def inheritedFromObject_def)
qed

text \<open>The new children, one for each variable of the reply and in the same order.\<close>

lemma makeChild_fst: "fst (makeChild this sess m c v) = Suc c"
  by (simp add: makeChild_def newNode_def)

lemma makeChild_name: "name (attrs (snd (makeChild this sess m c v))) = var_name v"
  by (simp add: makeChild_def newNode_def Let_def split: Lookup.split)

lemma makeChild_Found:
  "lookupState m (var_name v) = Found s \<Longrightarrow>
     id' (attrs (snd (makeChild this sess m c v))) = sv_id s \<and>
     prevValue (attrs (snd (makeChild this sess m c v))) = Some (sv_value s) \<and>
     children (snd (makeChild this sess m c v)) = sv_children s \<and>
     expanded (attrs (snd (makeChild this sess m c v)))
       = (sv_expanded s \<and> variablesReference (attrs (snd (makeChild this sess m c v))) > 0)"
  by (simp add: makeChild_def newNode_def Let_def)

lemma makeChild_Falsy:
  "lookupState m (var_name v) = Falsy \<Longrightarrow>
     id' (attrs (snd (makeChild this sess m c v))) = Some (''node_'' @ show_nat c) \<and>
     prevValue (attrs (snd (makeChild this sess m c v))) = Some '''' \<and>
     children (snd (makeChild this sess m c v)) = None \<and>
     \<not> expanded (attrs (snd (makeChild this sess m c v)))"
  by (simp add: makeChild_def newNode_def Let_def)

lemma makeChildren_Cons:
  "makeChildren this sess m c (v # vs) =
     (fst (makeChildren this sess m (Suc c) vs),
      snd (makeChild this sess m c v) # snd (makeChildren this sess m (Suc c) vs))"
proof -
  obtain c1 ch where a: "makeChild this sess m c v = (c1, ch)"
    by (cases "makeChild this sess m c v") auto
  then have c1: "c1 = Suc c" using makeChild_fst[of this sess m c v] by simp
  obtain c2 chs where b: "makeChildren this sess m (Suc c) vs = (c2, chs)"
    by (cases "makeChildren this sess m (Suc c) vs") auto
  show ?thesis using a b c1 by simp
qed

lemma makeChildren_length:
  "length (snd (makeChildren this sess m c vs)) = length vs"
  by (induction vs arbitrary: c) (simp_all add: makeChildren_Cons del: makeChildren.simps(2))

lemma makeChildren_nth:
  "i < length vs \<Longrightarrow>
     snd (makeChildren this sess m c vs) ! i = snd (makeChild this sess m (c + i) (vs ! i))"
proof (induction vs arbitrary: c i)
  case Nil
  then show ?case by simp
next
  case (Cons v vs)
  show ?case
  proof (cases i)
    case 0
    then show ?thesis by (simp add: makeChildren_Cons del: makeChildren.simps(2))
  next
    case (Suc j)
    then have "j < length vs" using Cons.prems by simp
    from Cons.IH[OF this, of "Suc c"] show ?thesis
      using Suc by (simp add: makeChildren_Cons del: makeChildren.simps(2))
  qed
qed

lemma rebuildChildren_children:
  "vs \<noteq> [] \<Longrightarrow>
     snd (rebuildChildren this sess c (Some vs)) =
       LiveVariableNode (attrs this)
         (Some (snd (makeChildren this sess (saveStates (getChildren this)) c vs)))"
  by (simp add: rebuildChildren_def split: prod.split)

text \<open>
  Claim C2, amended. \<open>refreshChildren\<close> rebuilds the children of a node from a
  non-empty list of variables, one child for each variable, in order and under the name of
  the variable. A new child whose name is borne by some prior child takes over from the
  last prior child of that name its id, its children list, its value as the new previous
  value, and its expansion flag (the flag only when the variables reference of the new
  child is positive). A new child whose name no prior child bears gets the id made from
  the id counter at its construction, the previous value \<open>''\<close>, no children and the
  expansion flag \<open>false\<close>, provided the name is not a property name of
  \<open>Object.prototype\<close> and no prior child is named \<open>__proto__\<close>.
\<close>

theorem C2_rebuild_inherits_by_name:
  assumes "i < length vs"
    and "ch = getChildren (snd (rebuildChildren this sess c (Some vs))) ! i"
    and "matches = filter (\<lambda>p. name (attrs p) = var_name (vs ! i)) (getChildren this)"
  shows "length (getChildren (snd (rebuildChildren this sess c (Some vs)))) = length vs \<and>
         name (attrs ch) = var_name (vs ! i) \<and>
         (matches \<noteq> [] \<longrightarrow>
            id' (attrs ch) = id' (attrs (last matches)) \<and>
            prevValue (attrs ch) = Some (value' (attrs (last matches))) \<and>
            children ch = children (last matches) \<and>
            expanded (attrs ch)
              = (expanded (attrs (last matches)) \<and> variablesReference (attrs ch) > 0)) \<and>
         (matches = [] \<and> var_name (vs ! i) \<notin> set objectPrototypeKeys \<and>
          var_name (vs ! i) \<noteq> ''__proto__'' \<and>
          filter (\<lambda>p. name (attrs p) = ''__proto__'') (getChildren this) = [] \<longrightarrow>
            id' (attrs ch) = Some (''node_'' @ show_nat (c + i)) \<and>
            prevValue (attrs ch) = Some '''' \<and>
            children ch = None \<and>
            \<not> expanded (attrs ch))"
proof -
  have ne: "vs \<noteq> []" using assms(1) by auto
  define m where "m = saveStates (getChildren this)"
  have kids: "getChildren (snd (rebuildChildren this sess c (Some vs)))
                = snd (makeChildren this sess m c vs)"
    by (simp add: rebuildChildren_children[OF ne] m_def)
  have ch: "ch = snd (makeChild this sess m (c + i) (vs ! i))"
    using assms(1,2) by (simp add: kids makeChildren_nth)
  have "length (getChildren (snd (rebuildChildren this sess c (Some vs)))) = length vs"
    by (simp add: kids makeChildren_length)
  moreover have "name (attrs ch) = var_name (vs ! i)"
    by (simp add: ch makeChild_name)
  moreover have "id' (attrs ch) = id' (attrs (last matches)) \<and>
            prevValue (attrs ch) = Some (value' (attrs (last matches))) \<and>
            children ch = children (last matches) \<and>
            expanded (attrs ch)
              = (expanded (attrs (last matches)) \<and> variablesReference (attrs ch) > 0)"
    if "matches \<noteq> []"
  proof -
    have "lookupState m (var_name (vs ! i)) = Found (stateOf (last matches))"
      using that unfolding m_def assms(3) by (rule lookup_last_match)
    from makeChild_Found[OF this, of this sess "c + i"] show ?thesis
      by (simp add: ch stateOf_def)
  qed
  moreover have "id' (attrs ch) = Some (''node_'' @ show_nat (c + i)) \<and>
            prevValue (attrs ch) = Some '''' \<and> children ch = None \<and> \<not> expanded (attrs ch)"
    if "matches = [] \<and> var_name (vs ! i) \<notin> set objectPrototypeKeys \<and>
          var_name (vs ! i) \<noteq> ''__proto__'' \<and>
          filter (\<lambda>p. name (attrs p) = ''__proto__'') (getChildren this) = []"
  proof -
    have "lookupState m (var_name (vs ! i)) = Falsy"
      unfolding m_def using that assms(3) by (intro lookup_no_match) auto
    from makeChild_Falsy[OF this, of this sess "c + i"] show ?thesis
      by (simp add: ch)
  qed
  ultimately show ?thesis by blast
qed

text \<open>
  The theorem on \<open>exStruct\<close> with a reply of the variables \<open>f\<close> and \<open>h\<close>: the new
  \<open>f\<close> takes over id, value and children of the old one, the new \<open>h\<close> is fresh.
\<close>

theorem C2_witness:
  "id' (attrs (getChildren (snd (rebuildChildren exStruct 1 20
         (Some [exVariable ''f'' ''5'' 7, exVariable ''h'' ''9'' 0]))) ! 0)) = Some ''node_2'' \<and>
   prevValue (attrs (getChildren (snd (rebuildChildren exStruct 1 20
         (Some [exVariable ''f'' ''5'' 7, exVariable ''h'' ''9'' 0]))) ! 0)) = Some ''1'' \<and>
   children (getChildren (snd (rebuildChildren exStruct 1 20
         (Some [exVariable ''f'' ''5'' 7, exVariable ''h'' ''9'' 0]))) ! 0)
     = Some [exKid exBelowF ''node_4'' ''x'' ''0'' False None] \<and>
   id' (attrs (getChildren (snd (rebuildChildren exStruct 1 20
         (Some [exVariable ''f'' ''5'' 7, exVariable ''h'' ''9'' 0]))) ! 1))
     = Some (''node_'' @ show_nat 21) \<and>
   prevValue (attrs (getChildren (snd (rebuildChildren exStruct 1 20
         (Some [exVariable ''f'' ''5'' 7, exVariable ''h'' ''9'' 0]))) ! 1)) = Some ''''"
proof -
  define vs where "vs = [exVariable ''f'' ''5'' 7, exVariable ''h'' ''9'' 0]"
  have kids: "getChildren exStruct =
      [exKid exBelowS ''node_2'' ''f'' ''1'' True
         (Some [exKid exBelowF ''node_4'' ''x'' ''0'' False None]),
       exKid exBelowS ''node_3'' ''g'' ''2'' False None]"
    by (simp add: exStruct_def exParent_def)
  have m0: "filter (\<lambda>p. name (attrs p) = var_name (vs ! 0)) (getChildren exStruct)
              = [exKid exBelowS ''node_2'' ''f'' ''1'' True
                   (Some [exKid exBelowF ''node_4'' ''x'' ''0'' False None])]"
    by (simp add: kids vs_def exVariable_def exKid_def)
  have m1: "filter (\<lambda>p. name (attrs p) = var_name (vs ! 1)) (getChildren exStruct) = []"
    by (simp add: kids vs_def exVariable_def exKid_def)
  have p1: "var_name (vs ! 1) \<notin> set objectPrototypeKeys" "var_name (vs ! 1) \<noteq> ''__proto__''"
    "filter (\<lambda>p. name (attrs p) = ''__proto__'') (getChildren exStruct) = []"
    by (simp_all add: kids vs_def exVariable_def exKid_def objectPrototypeKeys_def)
  have l: "0 < length vs" "1 < length vs" by (simp_all add: vs_def)
  note t0 = C2_rebuild_inherits_by_name[OF l(1) refl refl, of exStruct 1 20]
  note t1 = C2_rebuild_inherits_by_name[OF l(2) refl refl, of exStruct 1 20]
  show ?thesis
    using t0 t1 m0 m1 p1 unfolding vs_def[symmetric]
    by (simp add: exKid_def)
qed

text \<open>
  The claim as stated fails twice. With two prior children named \<open>f\<close> the new \<open>f\<close>
  takes the id of the second, not of the first. And a variable named \<open>constructor\<close>,
  a name no prior child bears, finds the function \<open>Object.prototype.constructor\<close> in
  the table: the new child gets \<open>undefined\<close> as id and as previous value.
\<close>

theorem C2_counterexample:
  "name (attrs (getChildren exTwins ! 0)) = ''f'' \<and>
   id' (attrs (getChildren exTwins ! 0)) = Some ''node_2'' \<and>
   name (attrs (getChildren (snd (rebuildChildren exTwins 1 20
         (Some [exVariable ''f'' ''5'' 0, exVariable ''constructor'' ''9'' 0]))) ! 0)) = ''f'' \<and>
   id' (attrs (getChildren (snd (rebuildChildren exTwins 1 20
         (Some [exVariable ''f'' ''5'' 0, exVariable ''constructor'' ''9'' 0]))) ! 0))
     = Some ''node_3'' \<and>
   filter (\<lambda>p. name (attrs p) = ''constructor'') (getChildren exTwins) = [] \<and>
   id' (attrs (getChildren (snd (rebuildChildren exTwins 1 20
         (Some [exVariable ''f'' ''5'' 0, exVariable ''constructor'' ''9'' 0]))) ! 1)) = None \<and>
   prevValue (attrs (getChildren (snd (rebuildChildren exTwins 1 20
         (Some [exVariable ''f'' ''5'' 0, exVariable ''constructor'' ''9'' 0]))) ! 1)) = None"
  by (simp add: exTwins_def exParent_def exKid_def exVariable_def rebuildChildren_def
      makeChild_def newNode_def Let_def saveStates_def assignState_def emptyStateMap_def
      stateOf_def lookupState_def inheritedFromObject_def objectPrototypeKeys_def selfRef_def)

section \<open>The structural diff of the webview\<close>

lemma compare_skeleton:
  "compareNodes oldNodes newNodes = (map skeleton oldNodes \<noteq> map skeleton newNodes)"
  "length oldNodes = length newNodes
     \<Longrightarrow> compareLoop oldNodes newNodes = (map skeleton oldNodes \<noteq> map skeleton newNodes)"
proof (induction oldNodes newNodes rule: compareNodes_compareLoop.induct)
  case (1 oldNodes newNodes)
  show ?case
  proof (cases "length oldNodes = length newNodes")
    case True
    then show ?thesis using 1 by simp
  next
    case False
    then have "map skeleton oldNodes \<noteq> map skeleton newNodes"
      by (metis length_map)
    then show ?thesis using False by simp
  qed
next
  case (2 old oldKids oldRest new newKids newRest)
  then show ?case by (auto split: option.splits)
next
  case (3 newNodes)
  then show ?case by simp
next
  case (4 oldNodes)
  then show ?case by simp
qed

lemma isStructureChanged_skeleton:
  "isStructureChanged oldVars newVars = (map skeleton oldVars \<noteq> map skeleton newVars)"
  by (auto simp del: compareNodes.simps
      simp: isStructureChanged_def compare_skeleton(1) dest: map_eq_imp_length_eq)

text \<open>
  Claim C3. \<open>isStructureChanged\<close> returns \<open>false\<close> if and only if the two lists of
  variable trees have the same tracked part: the same shape and, at every corresponding
  node, the same \<open>id\<close>, \<open>name\<close>, \<open>expr\<close>, \<open>hasChildren\<close>, \<open>expanded\<close> and
  \<open>depth\<close>; \<open>value\<close>, \<open>type\<close>, \<open>changed\<close> and \<open>isRoot\<close> play no part. Hence an
  \<open>update\<close> message that arrives while no node is being edited causes a full render
  exactly when the tracked part of the new variables differs from that of the old ones,
  and a patch of the values otherwise.
\<close>

theorem C3_structural_diff_exact:
  "(\<not> isStructureChanged oldVars newVars) = (map skeleton oldVars = map skeleton newVars) \<and>
   (editingNodeId view = None \<or> editingNodeId view = Some '''' \<longrightarrow>
      snd (handleMessage view (Update vars flag)) =
        (if map skeleton (view_variables view)
              = map skeleton (case vars of None \<Rightarrow> [] | Some vs \<Rightarrow> vs)
         then UpdateVariableValues (case vars of None \<Rightarrow> [] | Some vs \<Rightarrow> vs)
         else Render))"
  by (auto simp: isStructureChanged_skeleton handleMessage_def Let_def)

text \<open>
  The theorem on a view that shows one variable: an update that changes its value and
  its \<open>changed\<close> flag patches the values, an update that gives it a child renders.
\<close>

theorem C3_witness:
  "\<not> isStructureChanged [exVar ''1'' False None] [exVar ''2'' True (Some [])] \<and>
   snd (handleMessage exView (Update (Some [exVar ''2'' True (Some [])]) (Some True)))
     = UpdateVariableValues [exVar ''2'' True (Some [])] \<and>
   snd (handleMessage exView
          (Update (Some [exVar ''2'' True (Some [exVar ''3'' False None])]) (Some True)))
     = Render"
proof -
  have e: "editingNodeId exView = None" by (simp add: exView_def)
  show ?thesis
    using C3_structural_diff_exact[of "[exVar ''1'' False None]" "[exVar ''2'' True (Some [])]"
        exView "Some [exVar ''2'' True (Some [])]" "Some True"]
      C3_structural_diff_exact[of "[]" "[]" exView
        "Some [exVar ''2'' True (Some [exVar ''3'' False None])]" "Some True"] e
    by (simp add: exView_def exVar_def)
qed

section \<open>Serialization round trip\<close>

lemma persistent_sel:
  "persistent n =
     NodeState (name (attrs n)) (expr (attrs n)) (expanded (attrs n))
       (map persistent (getChildren n))"
  by (cases n) (simp add: getChildren_def split: option.split)

lemma descendantsHaveParent_sel:
  "descendantsHaveParent n =
     list_all (\<lambda>c. parent (attrs c) \<noteq> None \<and> descendantsHaveParent c) (getChildren n)"
  by (cases n) (simp add: getChildren_def split: option.split)

lemma descendantsHaveParent_children:
  "descendantsHaveParent n \<Longrightarrow> c \<in> set (getChildren n)
     \<Longrightarrow> parent (attrs c) \<noteq> None \<and> descendantsHaveParent c"
  by (cases n) (auto simp: getChildren_def list_all_iff split: option.splits)

lemma addNewExpr_parents:
  "descendantsHaveParent this \<Longrightarrow> descendantsHaveParent (snd (snd (addNewExpr c this ex)))"
  by (auto simp: addNewExpr_def addChild_def newNode_def descendantsHaveParent_sel[of this]
      descendantsHaveParent_sel[of "LiveVariableNode _ _"])

lemma pvtSerialize_persistent:
  "parent (attrs n) \<noteq> None \<Longrightarrow> descendantsHaveParent n \<Longrightarrow> pvtSerialize n = persistent n"
proof (induction n rule: pvtSerialize.induct)
  case (1 f cs)
  show ?case
  proof (cases cs)
    case None
    then show ?thesis using 1 by auto
  next
    case (Some l)
    have "map pvtSerialize l = map persistent l"
    proof (rule map_cong[OF refl])
      fix c assume c: "c \<in> set l"
      then have "parent (attrs c) \<noteq> None" "descendantsHaveParent c"
        using "1.prems"(2) Some by (auto simp: list_all_iff)
      then show "pvtSerialize c = persistent c"
        using "1.IH"[OF Some c] by simp
    qed
    then show ?thesis using 1 Some by auto
  qed
qed

lemma serialize_root:
  assumes "parent (attrs rootNode) = None" and "descendantsHaveParent rootNode"
  shows "serialize rootNode =
           NodeState (name (attrs rootNode)) (expr (attrs rootNode)) True
             (map persistent (getChildren rootNode))"
proof -
  have "map pvtSerialize (getChildren rootNode) = map persistent (getChildren rootNode)"
    using descendantsHaveParent_children[OF assms(2)]
    by (intro map_cong[OF refl] pvtSerialize_persistent) auto
  then show ?thesis
    using assms(1) by (cases rootNode) (simp add: serialize_def getChildren_def split: option.splits)
qed

lemma deSerialize_shape:
  "attrs (snd (deSerialize c this st)) = attrs this \<and>
   map persistent (getChildren (snd (deSerialize c this st)))
     = map persistent (getChildren this) @ ns_children st"
  "attrs (snd (deSerializeLoop c this kids)) = attrs this \<and>
   map persistent (getChildren (snd (deSerializeLoop c this kids)))
     = map persistent (getChildren this) @ kids"
proof (induction c this st and c this kids rule: deSerialize_deSerializeLoop.induct)
  case (1 idCounter this nm ex ep kids)
  then show ?case by simp
next
  case (2 idCounter this)
  then show ?case by simp
next
  case (3 idCounter this child rest)
  obtain c1 item where n: "newNode idCounter (Some (selfRef this)) (ns_name child) (ns_expr child) '''' '''' 0 = (c1, item)"
    by (cases "newNode idCounter (Some (selfRef this)) (ns_name child) (ns_expr child) '''' '''' 0") auto
  define item1 where "item1 = LiveVariableNode ((attrs item)\<lparr>expanded := ns_expanded child\<rparr>) (children item)"
  obtain c2 item' where d: "deSerialize c1 item1 child = (c2, item')"
    by (cases "deSerialize c1 item1 child") auto
  define this' where "this' = LiveVariableNode (attrs this) (Some (getChildren this @ [item']))"
  have step: "deSerializeLoop idCounter this (child # rest) = deSerializeLoop c2 this' rest"
    using n d by (simp add: item1_def this'_def)
  have ih1: "attrs item' = attrs item1 \<and>
      map persistent (getChildren item') = map persistent (getChildren item1) @ ns_children child"
    using "3.IH"(1)[of c1 item] n d by (simp add: item1_def)
  have ih2: "attrs (snd (deSerializeLoop c2 this' rest)) = attrs this' \<and>
      map persistent (getChildren (snd (deSerializeLoop c2 this' rest)))
        = map persistent (getChildren this') @ rest"
    using "3.IH"(2)[of c1 item c2 item'] n d by (simp add: this'_def item1_def)
  have i1: "name (attrs item1) = ns_name child" "expr (attrs item1) = ns_expr child"
    "expanded (attrs item1) = ns_expanded child" "getChildren item1 = []"
    using n by (auto simp: item1_def newNode_def getChildren_def)
  have "persistent item' = child"
    using ih1 i1 by (cases child) (simp add: persistent_sel[of item'])
  then show ?case
    using ih2 step by (simp add: this'_def getChildren_def)
qed

lemma unvalued_sel:
  "unvalued n =
     (value' (attrs n) = '''' \<and> type' (attrs n) = '''' \<and> variablesReference (attrs n) = 0 \<and>
      list_all unvalued (getChildren n))"
  by (cases n) (simp add: getChildren_def split: option.split)

lemma deSerialize_unvalued:
  "list_all unvalued (getChildren this)
     \<Longrightarrow> list_all unvalued (getChildren (snd (deSerialize c this st)))"
  "list_all unvalued (getChildren this)
     \<Longrightarrow> list_all unvalued (getChildren (snd (deSerializeLoop c this kids)))"
proof (induction c this st and c this kids rule: deSerialize_deSerializeLoop.induct)
  case (1 idCounter this nm ex ep kids)
  then show ?case by simp
next
  case (2 idCounter this)
  then show ?case by simp
next
  case (3 idCounter this child rest)
  obtain c1 item where n: "newNode idCounter (Some (selfRef this)) (ns_name child) (ns_expr child) '''' '''' 0 = (c1, item)"
    by (cases "newNode idCounter (Some (selfRef this)) (ns_name child) (ns_expr child) '''' '''' 0") auto
  define item1 where "item1 = LiveVariableNode ((attrs item)\<lparr>expanded := ns_expanded child\<rparr>) (children item)"
  obtain c2 item' where d: "deSerialize c1 item1 child = (c2, item')"
    by (cases "deSerialize c1 item1 child") auto
  define this' where "this' = LiveVariableNode (attrs this) (Some (getChildren this @ [item']))"
  have step: "deSerializeLoop idCounter this (child # rest) = deSerializeLoop c2 this' rest"
    using n d by (simp add: item1_def this'_def)
  have i1: "value' (attrs item1) = ''''" "type' (attrs item1) = ''''"
    "variablesReference (attrs item1) = 0" "getChildren item1 = []"
    using n by (auto simp: item1_def newNode_def getChildren_def)
  have "list_all unvalued (getChildren item')"
    using "3.IH"(1)[of c1 item] n d i1(4) by (simp add: item1_def)
  moreover have "attrs item' = attrs item1"
    using deSerialize_shape(1)[of c1 item1 child] d by simp
  ultimately have "unvalued item'"
    using i1 by (simp add: unvalued_sel[of item'])
  then have "list_all unvalued (getChildren this')"
    using "3.prems" by (simp add: this'_def)
  then show ?case
    using "3.IH"(2)[of c1 item c2 item'] n d step by (simp add: this'_def item1_def)
qed

lemma deSerialize_parents:
  "list_all (\<lambda>c. parent (attrs c) \<noteq> None \<and> descendantsHaveParent c) (getChildren this)
     \<Longrightarrow> list_all (\<lambda>c. parent (attrs c) \<noteq> None \<and> descendantsHaveParent c)
           (getChildren (snd (deSerialize c this st)))"
  "list_all (\<lambda>c. parent (attrs c) \<noteq> None \<and> descendantsHaveParent c) (getChildren this)
     \<Longrightarrow> list_all (\<lambda>c. parent (attrs c) \<noteq> None \<and> descendantsHaveParent c)
           (getChildren (snd (deSerializeLoop c this kids)))"
proof (induction c this st and c this kids rule: deSerialize_deSerializeLoop.induct)
  case (1 idCounter this nm ex ep kids)
  then show ?case by simp
next
  case (2 idCounter this)
  then show ?case by simp
next
  case (3 idCounter this child rest)
  obtain c1 item where n: "newNode idCounter (Some (selfRef this)) (ns_name child) (ns_expr child) '''' '''' 0 = (c1, item)"
    by (cases "newNode idCounter (Some (selfRef this)) (ns_name child) (ns_expr child) '''' '''' 0") auto
  define item1 where "item1 = LiveVariableNode ((attrs item)\<lparr>expanded := ns_expanded child\<rparr>) (children item)"
  obtain c2 item' where d: "deSerialize c1 item1 child = (c2, item')"
    by (cases "deSerialize c1 item1 child") auto
  define this' where "this' = LiveVariableNode (attrs this) (Some (getChildren this @ [item']))"
  have step: "deSerializeLoop idCounter this (child # rest) = deSerializeLoop c2 this' rest"
    using n d by (simp add: item1_def this'_def)
  have i1: "parent (attrs item1) \<noteq> None" "getChildren item1 = []"
    using n by (auto simp: item1_def newNode_def getChildren_def)
  have "list_all (\<lambda>c. parent (attrs c) \<noteq> None \<and> descendantsHaveParent c) (getChildren item')"
    using "3.IH"(1)[of c1 item] n d i1(2) by (simp add: item1_def)
  then have "descendantsHaveParent item'"
    by (simp add: descendantsHaveParent_sel[of item'])
  moreover have "attrs item' = attrs item1"
    using deSerialize_shape(1)[of c1 item1 child] d by simp
  ultimately have
    "list_all (\<lambda>c. parent (attrs c) \<noteq> None \<and> descendantsHaveParent c) (getChildren this')"
    using "3.prems" i1(1) by (simp add: this'_def)
  then show ?case
    using "3.IH"(2)[of c1 item c2 item'] n d step by (simp add: this'_def item1_def)
qed

text \<open>
  Claim C4. Take a watch tree: a root without parent, with empty name and expression,
  all of whose descendants have a parent. \<open>deSerialize\<close>, called on a fresh root (empty
  name and expression, no children) with the output of \<open>serialize\<close>, builds children
  with the same persistent part as the children of the original, in the same order: the
  same shape, and at every node the same name, expression and expansion flag. The new
  root has the name and the expression of the original, the serialized root is recorded
  as expanded, the rebuilt nodes carry no value, type or variables reference, and all of
  them have a parent again.
\<close>

theorem C4_serialize_roundtrip:
  assumes "parent (attrs rootNode) = None" and "name (attrs rootNode) = ''''"
    and "expr (attrs rootNode) = ''''" and "descendantsHaveParent rootNode"
    and "name (attrs fresh) = ''''" and "expr (attrs fresh) = ''''" and "children fresh = None"
  shows "map persistent (getChildren (snd (deSerialize c fresh (serialize rootNode))))
           = map persistent (getChildren rootNode) \<and>
         name (attrs (snd (deSerialize c fresh (serialize rootNode)))) = name (attrs rootNode) \<and>
         expr (attrs (snd (deSerialize c fresh (serialize rootNode)))) = expr (attrs rootNode) \<and>
         ns_expanded (serialize rootNode) \<and>
         list_all unvalued (getChildren (snd (deSerialize c fresh (serialize rootNode)))) \<and>
         descendantsHaveParent (snd (deSerialize c fresh (serialize rootNode)))"
proof -
  have s: "serialize rootNode =
           NodeState (name (attrs rootNode)) (expr (attrs rootNode)) True
             (map persistent (getChildren rootNode))"
    using assms(1,4) by (rule serialize_root)
  have g: "getChildren fresh = []" using assms(7) by (simp add: getChildren_def)
  have "map persistent (getChildren (snd (deSerialize c fresh (serialize rootNode))))
           = map persistent (getChildren rootNode)"
    using deSerialize_shape(1)[of c fresh "serialize rootNode"] g by (simp add: s)
  moreover have "attrs (snd (deSerialize c fresh (serialize rootNode))) = attrs fresh"
    using deSerialize_shape(1)[of c fresh "serialize rootNode"] by simp
  moreover have "list_all unvalued (getChildren (snd (deSerialize c fresh (serialize rootNode))))"
    using deSerialize_unvalued(1)[of fresh c "serialize rootNode"] g by simp
  moreover have "descendantsHaveParent (snd (deSerialize c fresh (serialize rootNode)))"
    using deSerialize_parents(1)[of fresh c "serialize rootNode"] g
    by (simp add: descendantsHaveParent_sel[of "snd (deSerialize c fresh (serialize rootNode))"])
  ultimately show ?thesis using assms(2,3,5,6) s by simp
qed

text \<open>The theorem on \<open>exNested\<close>, rebuilt on the empty root.\<close>

theorem C4_witness:
  "serialize exNested =
     NodeState '''' '''' True
       [NodeState ''x'' ''x'' False [],
        NodeState ''a'' ''a'' True [NodeState ''a'' ''a'' False []],
        NodeState ''b'' ''b'' False []] \<and>
   map persistent (getChildren (snd (deSerialize 5 exRoot (serialize exNested)))) =
       [NodeState ''x'' ''x'' False [],
        NodeState ''a'' ''a'' True [NodeState ''a'' ''a'' False []],
        NodeState ''b'' ''b'' False []] \<and>
   name (attrs (snd (deSerialize 5 exRoot (serialize exNested)))) = '''' \<and>
   list_all unvalued (getChildren (snd (deSerialize 5 exRoot (serialize exNested))))"
proof -
  have r: "parent (attrs exNested) = None" "name (attrs exNested) = ''''"
    "expr (attrs exNested) = ''''"
    by (simp_all add: exNested_def exRoot_def newNode_def)
  have w: "descendantsHaveParent exNested"
    by (simp add: exNested_eval newNode_def)
  have f: "name (attrs exRoot) = ''''" "expr (attrs exRoot) = ''''" "children exRoot = None"
    by (simp_all add: exRoot_def newNode_def)
  have p: "map persistent (getChildren exNested) =
       [NodeState ''x'' ''x'' False [],
        NodeState ''a'' ''a'' True [NodeState ''a'' ''a'' False []],
        NodeState ''b'' ''b'' False []]"
    by (simp add: exNested_eval newNode_def)
  have s: "serialize exNested = NodeState '''' '''' True (map persistent (getChildren exNested))"
    using serialize_root[OF r(1) w] r by simp
  note t = C4_serialize_roundtrip[OF r w f, of 5]
  from t have a: "map persistent (getChildren (snd (deSerialize 5 exRoot (serialize exNested))))
      = map persistent (getChildren exNested)"
    by (rule conjunct1)
  from t have b: "name (attrs (snd (deSerialize 5 exRoot (serialize exNested))))
      = name (attrs exNested)"
    by blast
  from t have c: "list_all unvalued (getChildren (snd (deSerialize 5 exRoot (serialize exNested))))"
    by blast
  show ?thesis
  proof (intro conjI)
    show "serialize exNested =
       NodeState '''' '''' True
         [NodeState ''x'' ''x'' False [],
          NodeState ''a'' ''a'' True [NodeState ''a'' ''a'' False []],
          NodeState ''b'' ''b'' False []]"
      using s unfolding p .
    show "map persistent (getChildren (snd (deSerialize 5 exRoot (serialize exNested)))) =
         [NodeState ''x'' ''x'' False [],
          NodeState ''a'' ''a'' True [NodeState ''a'' ''a'' False []],
          NodeState ''b'' ''b'' False []]"
      using a unfolding p .
    show "name (attrs (snd (deSerialize 5 exRoot (serialize exNested)))) = ''''"
      using b unfolding r(2) .
    show "list_all unvalued (getChildren (snd (deSerialize 5 exRoot (serialize exNested))))"
      by (rule c)
  qed
qed

section \<open>Change highlighting\<close>

lemma toWebViewNode_changed:
  "v_changed (v_attrs (fst (toWebViewNode g d cwd n))) = isValueChanged n"
  by (cases n) (simp add: Let_def)

lemma toWebViewNode_attrs:
  "attrs (snd (toWebViewNode g d cwd n)) = (attrs n)\<lparr>prevValue := Some (value' (attrs n))\<rparr>"
  by (cases n) (simp add: Let_def)

text \<open>
  What \<open>toWebViewNode\<close> does for change highlighting. At a node whose previous value is
  a string, \<open>changed\<close> is reported if and only if that string is not empty and differs
  from the current value. At a node whose previous value is \<open>undefined\<close>, \<open>changed\<close>
  is reported whatever the value. In both cases the current value is stored as previous
  value and the value is left as it is, so a second call with no update of the value in
  between reports \<open>changed = false\<close>.
\<close>

lemma toWebViewNode_previous_string:
  "prevValue (attrs n) = Some p
     \<Longrightarrow> v_changed (v_attrs (fst (toWebViewNode g d cwd n))) = (p \<noteq> '''' \<and> p \<noteq> value' (attrs n))"
  by (simp add: toWebViewNode_changed isValueChanged_def)

lemma toWebViewNode_previous_undefined:
  "prevValue (attrs n) = None \<Longrightarrow> v_changed (v_attrs (fst (toWebViewNode g d cwd n)))"
  by (simp add: toWebViewNode_changed isValueChanged_def)

lemma toWebViewNode_stores_value:
  "prevValue (attrs (snd (toWebViewNode g d cwd n))) = Some (value' (attrs n)) \<and>
   value' (attrs (snd (toWebViewNode g d cwd n))) = value' (attrs n) \<and>
   \<not> v_changed (v_attrs (fst (toWebViewNode g' d' cwd' (snd (toWebViewNode g d cwd n)))))"
  by (simp add: toWebViewNode_changed toWebViewNode_attrs isValueChanged_def)

text \<open>
  Claim C5 says that a node that has never had a non-empty previous value is never
  reported changed. The code breaks this at a node whose previous value is \<open>undefined\<close>.
  \<open>exFresh\<close> is expanded and has no children yet, and the adapter answers with the
  variables \<open>constructor\<close> and \<open>count\<close>: neither of the two new children has had a
  previous value. \<open>refreshChildren\<close> leaves \<open>count\<close> with the empty string as previous
  value, and \<open>constructor\<close>, for which the table of saved states finds the inherited
  \<open>Object.prototype.constructor\<close>, with \<open>undefined\<close>. The projection of the
  refreshed node then reports \<open>constructor\<close> as changed and \<open>count\<close> as unchanged.
\<close>

theorem C5_undefined_previous_value_reported_changed:
  "children exFresh = Some [] \<and>
   map (name \<circ> attrs) (getChildren (fst (refreshChildren exFields (Some 1) exFresh (20, []))))
     = [''constructor'', ''count''] \<and>
   map (prevValue \<circ> attrs) (getChildren (fst (refreshChildren exFields (Some 1) exFresh (20, []))))
     = [None, Some ''''] \<and>
   map_option (map (v_changed \<circ> v_attrs))
     (v_children (fst (toWebViewNode (\<lambda>dir file. file) 0 None
                         (fst (refreshChildren exFields (Some 1) exFresh (20, []))))))
     = Some [True, False]"
  by code_simp

section \<open>Children are fetched lazily\<close>

lemma requestsChildren_shouldFetch: "requestsChildren sess this = shouldFetch sess this"
  by (auto simp: requestsChildren_def shouldFetch_def split: option.splits)

lemma rebuildChildren_attrs: "attrs (snd (rebuildChildren this s c result)) = attrs this"
  by (simp add: rebuildChildren_def split: option.split prod.split)

lemma issueRequests_log: "\<exists>more. issueRequests sess kids rq = rq @ more"
proof (induction kids arbitrary: rq)
  case Nil
  then show ?case by simp
next
  case (Cons child rest)
  show ?case
  proof (cases "expanded (attrs child) \<and> requestsChildren sess child")
    case True
    obtain more where "issueRequests sess rest (rq @ [variablesReference (attrs child)])
                         = (rq @ [variablesReference (attrs child)]) @ more"
      using Cons.IH[of "rq @ [variablesReference (attrs child)]"] by blast
    then show ?thesis using True by simp
  next
    case False
    then show ?thesis using Cons.IH[of rq] by auto
  qed
qed

lemma settleRequest_attrs: "attrs (fst (fst (settleRequest adapter s node st))) = attrs node"
proof (cases st)
  case (Pair c rq)
  show ?thesis
  proof (cases "adapter (variablesReference (attrs node))")
    case Rejected
    then show ?thesis using Pair by (simp add: settleRequest_def)
  next
    case (Fulfilled result)
    obtain c1 node' where rb: "rebuildChildren node s c result = (c1, node')"
      by (cases "rebuildChildren node s c result") auto
    have "attrs node' = attrs node" using rebuildChildren_attrs[of node s c result] rb by simp
    then show ?thesis using Pair Fulfilled rb by (simp add: settleRequest_def)
  qed
qed

lemma settleRequest_log: "\<exists>more. snd (snd (settleRequest adapter s node (c, rq))) = rq @ more"
proof (cases "adapter (variablesReference (attrs node))")
  case Rejected
  then show ?thesis by (simp add: settleRequest_def)
next
  case (Fulfilled result)
  obtain c1 node' where rb: "rebuildChildren node s c result = (c1, node')"
    by (cases "rebuildChildren node s c result") auto
  show ?thesis
    using Fulfilled rb issueRequests_log[of "Some s" "getChildren node'" rq]
    by (simp add: settleRequest_def)
qed

lemma settleRequests_attrs:
  "map (attrs \<circ> fst) (fst (settleRequests adapter s nodes st)) = map attrs nodes"
proof (induction nodes arbitrary: st)
  case Nil
  then show ?case by simp
next
  case (Cons node rest)
  obtain settled st1 where a: "settleRequest adapter s node st = (settled, st1)"
    by (cases "settleRequest adapter s node st") auto
  obtain others st2 where b: "settleRequests adapter s rest st1 = (others, st2)"
    by (cases "settleRequests adapter s rest st1") auto
  have "attrs (fst settled) = attrs node" using settleRequest_attrs[of adapter s node st] a by simp
  moreover have "map (attrs \<circ> fst) others = map attrs rest"
    using Cons.IH[of st1] b by (simp add: comp_def)
  ultimately show ?case using a b by (simp add: comp_def)
qed

lemma settleRequests_log:
  "\<exists>more. snd (snd (settleRequests adapter s nodes (c, rq))) = rq @ more"
proof (induction nodes arbitrary: c rq)
  case Nil
  then show ?case by simp
next
  case (Cons node rest)
  obtain settled c1 rq1 where a: "settleRequest adapter s node (c, rq) = (settled, c1, rq1)"
    by (cases "settleRequest adapter s node (c, rq)") auto
  obtain others c2 rq2 where b: "settleRequests adapter s rest (c1, rq1) = (others, c2, rq2)"
    by (cases "settleRequests adapter s rest (c1, rq1)") auto
  obtain m1 where m1: "rq1 = rq @ m1" using settleRequest_log[of adapter s node c rq] a by auto
  obtain m2 where m2: "rq2 = rq1 @ m2" using Cons.IH[of c1 rq1] b by auto
  show ?case using a b m1 m2 by simp
qed

text \<open>
  Putting the refreshed nodes back changes no field of a node, as long as the refreshed
  nodes are the awaited ones with their own fields.
\<close>

lemma replaceAwaited_attrs:
  "map attrs answered
     = map attrs (filter (\<lambda>child. expanded (attrs child) \<and> requestsChildren (Some s) child) kids)
       @ later
   \<Longrightarrow> map attrs (fst (replaceAwaited s kids answered)) = map attrs kids \<and>
       map attrs (snd (replaceAwaited s kids answered)) = later"
proof (induction kids arbitrary: answered)
  case Nil
  then show ?case by simp
next
  case (Cons child rest)
  show ?case
  proof (cases "expanded (attrs child) \<and> requestsChildren (Some s) child")
    case True
    then obtain child' answered' where an: "answered = child' # answered'"
      using Cons.prems by (cases answered) auto
    have h: "attrs child' = attrs child" and
      t: "map attrs answered'
            = map attrs (filter (\<lambda>child. expanded (attrs child) \<and> requestsChildren (Some s) child) rest)
              @ later"
      using Cons.prems True an by simp_all
    obtain rest' left where r: "replaceAwaited s rest answered' = (rest', left)"
      by (cases "replaceAwaited s rest answered'") auto
    show ?thesis using Cons.IH[OF t] True an h r by simp
  next
    case False
    obtain rest' left where r: "replaceAwaited s rest answered = (rest', left)"
      by (cases "replaceAwaited s rest answered") auto
    have t: "map attrs answered
            = map attrs (filter (\<lambda>child. expanded (attrs child) \<and> requestsChildren (Some s) child) rest)
              @ later"
      using Cons.prems False by auto
    show ?thesis using Cons.IH[OF t] False r by auto
  qed
qed

lemma putBack_attrs:
  "map attrs answered = map attrs (awaited s settled)
     \<Longrightarrow> map attrs (putBack s settled answered) = map (attrs \<circ> fst) settled"
proof (induction settled arbitrary: answered)
  case Nil
  then show ?case by simp
next
  case (Cons p rest)
  obtain node fulfilled where p: "p = (node, fulfilled)" by (cases p)
  show ?case
  proof (cases fulfilled)
    case True
    obtain kids left where r: "replaceAwaited s (getChildren node) answered = (kids, left)"
      by (cases "replaceAwaited s (getChildren node) answered") auto
    have "map attrs answered
            = map attrs (filter (\<lambda>child. expanded (attrs child) \<and> requestsChildren (Some s) child)
                           (getChildren node))
              @ map attrs (awaited s rest)"
      using Cons.prems p True by (simp add: awaited_def)
    then have "map attrs left = map attrs (awaited s rest)"
      using replaceAwaited_attrs[of answered s "getChildren node" "map attrs (awaited s rest)"] r
      by simp
    then show ?thesis using Cons.IH[of left] p True r by simp
  next
    case False
    have "map attrs answered = map attrs (awaited s rest)"
      using Cons.prems p False by (simp add: awaited_def)
    then show ?thesis using Cons.IH[of answered] p False by simp
  qed
qed

lemma refreshLevel_attrs:
  "map attrs (fst (refreshLevel adapter s nodes st)) = map attrs nodes"
proof (induction adapter s nodes st rule: refreshLevel.induct)
  case (1 adapter s nodes st)
  show ?case
  proof (cases "nodes = []")
    case True
    then show ?thesis by (simp add: refreshLevel.simps)
  next
    case False
    obtain settled st1 where a: "settleRequests adapter s nodes st = (settled, st1)"
      by (cases "settleRequests adapter s nodes st") auto
    obtain answered st2 where b: "refreshLevel adapter s (awaited s settled) st1 = (answered, st2)"
      by (cases "refreshLevel adapter s (awaited s settled) st1") auto
    have "map attrs answered = map attrs (awaited s settled)"
      using "1.IH"[OF False a[symmetric]] b by simp
    then have "map attrs (putBack s settled answered) = map (attrs \<circ> fst) settled"
      by (rule putBack_attrs)
    moreover have "map (attrs \<circ> fst) settled = map attrs nodes"
      using settleRequests_attrs[of adapter s nodes st] a by simp
    ultimately show ?thesis
      using False a b by (simp add: refreshLevel.simps[of adapter s nodes st])
  qed
qed

lemma refreshLevel_log:
  "\<exists>more. snd (snd (refreshLevel adapter s nodes st)) = snd st @ more"
proof (induction adapter s nodes st rule: refreshLevel.induct)
  case (1 adapter s nodes st)
  show ?case
  proof (cases "nodes = []")
    case True
    then show ?thesis by (simp add: refreshLevel.simps)
  next
    case False
    obtain c rq where st: "st = (c, rq)" by (cases st)
    obtain settled c1 rq1 where a: "settleRequests adapter s nodes st = (settled, c1, rq1)"
      by (cases "settleRequests adapter s nodes st") auto
    obtain answered c2 rq2 where
      b: "refreshLevel adapter s (awaited s settled) (c1, rq1) = (answered, c2, rq2)"
      by (cases "refreshLevel adapter s (awaited s settled) (c1, rq1)") auto
    obtain m1 where m1: "rq1 = rq @ m1"
      using settleRequests_log[of adapter s nodes c rq] a st by auto
    obtain m2 where m2: "rq2 = rq1 @ m2"
      using "1.IH"[OF False a[symmetric]] b by auto
    show ?thesis
      using False a b m1 m2 st by (simp add: refreshLevel.simps[of adapter s nodes])
  qed
qed

lemma refreshLevel_single:
  "\<exists>this' st'. refreshLevel adapter s [this] st = ([this'], st')"
proof -
  have "length (map attrs (fst (refreshLevel adapter s [this] st))) = length (map attrs [this])"
    using refreshLevel_attrs[of adapter s "[this]" st] by simp
  then have "length (fst (refreshLevel adapter s [this] st)) = 1" by simp
  then obtain this' where "fst (refreshLevel adapter s [this] st) = [this']"
    by (cases "fst (refreshLevel adapter s [this] st)") auto
  then show ?thesis by (cases "refreshLevel adapter s [this] st") auto
qed

lemma refreshChildren_skip:
  "\<not> shouldFetch sess this \<Longrightarrow> refreshChildren adapter sess this (c, rq) = (this, c, rq)"
  by (auto simp: refreshChildren.simps requestsChildren_shouldFetch split: option.split)

lemma refreshChildren_unfold:
  assumes "shouldFetch sess this"
  shows "refreshChildren adapter sess this (c, rq) =
     (case refreshLevel adapter (the sess) [this] (c, rq @ [variablesReference (attrs this)]) of
        (answered, st') \<Rightarrow> (hd answered, st'))"
proof -
  obtain s where s: "sess = Some s" using assms by (auto simp: shouldFetch_def)
  obtain this' st' where
    "refreshLevel adapter s [this] (c, rq @ [variablesReference (attrs this)]) = ([this'], st')"
    using refreshLevel_single by blast
  then show ?thesis
    using assms s by (simp add: refreshChildren.simps requestsChildren_shouldFetch)
qed

lemma refreshLevel_rejected:
  "adapter (variablesReference (attrs this)) = Rejected
     \<Longrightarrow> refreshLevel adapter s [this] st = ([this], st)"
  by (cases st)
    (simp add: refreshLevel.simps[of adapter s "[this]"] refreshLevel.simps[of adapter s "[]"]
      settleRequest_def awaited_def)

lemma refreshChildren_rejected:
  "shouldFetch sess this \<Longrightarrow> adapter (variablesReference (attrs this)) = Rejected
     \<Longrightarrow> refreshChildren adapter sess this (c, rq)
           = (this, c, rq @ [variablesReference (attrs this)])"
  by (simp add: refreshChildren_unfold refreshLevel_rejected)

lemma refreshLevel_empty:
  "adapter (variablesReference (attrs this)) = Fulfilled None \<or>
   adapter (variablesReference (attrs this)) = Fulfilled (Some [])
     \<Longrightarrow> refreshLevel adapter s [this] st = ([LiveVariableNode (attrs this) None], st)"
  by (cases st)
    (auto simp: refreshLevel.simps[of adapter s "[this]"] refreshLevel.simps[of adapter s "[]"]
      settleRequest_def awaited_def rebuildChildren_def getChildren_def)

lemma refreshChildren_empty:
  "shouldFetch sess this
     \<Longrightarrow> adapter (variablesReference (attrs this)) = Fulfilled None \<or>
         adapter (variablesReference (attrs this)) = Fulfilled (Some [])
     \<Longrightarrow> refreshChildren adapter sess this (c, rq)
           = (LiveVariableNode (attrs this) None, c, rq @ [variablesReference (attrs this)])"
  by (simp add: refreshChildren_unfold refreshLevel_empty)

lemma makeChildren_names:
  "map (name \<circ> attrs) (snd (makeChildren this sess m c vs)) = map var_name vs"
proof (induction vs arbitrary: c)
  case Nil
  then show ?case by simp
next
  case (Cons v vs)
  obtain c1 ch where a: "makeChild this sess m c v = (c1, ch)"
    by (cases "makeChild this sess m c v") auto
  obtain c2 chs where b: "makeChildren this sess m c1 vs = (c2, chs)"
    by (cases "makeChildren this sess m c1 vs") auto
  have "name (attrs ch) = var_name v"
    using a by (auto simp: makeChild_def newNode_def Let_def split: Lookup.splits)
  moreover have "map (name \<circ> attrs) chs = map var_name vs"
    using Cons.IH[of c1] b by (simp add: comp_def)
  ultimately show ?case using a b by (simp add: comp_def)
qed

lemma refreshChildren_fulfilled:
  assumes "shouldFetch sess this"
    and "adapter (variablesReference (attrs this)) = Fulfilled (Some vs)" and "vs \<noteq> []"
  shows "children (fst (refreshChildren adapter sess this (c, rq))) \<noteq> None \<and>
         map (name \<circ> attrs) (getChildren (fst (refreshChildren adapter sess this (c, rq))))
           = map var_name vs"
proof -
  define s where "s = the sess"
  define chs where "chs = snd (makeChildren this s (saveStates (getChildren this)) c vs)"
  define c1 where "c1 = fst (makeChildren this s (saveStates (getChildren this)) c vs)"
  define log where "log = issueRequests (Some s) chs (rq @ [variablesReference (attrs this)])"
  define pending where
    "pending = filter (\<lambda>child. expanded (attrs child) \<and> requestsChildren (Some s) child) chs"
  have rb: "rebuildChildren this s c (Some vs) = (c1, LiveVariableNode (attrs this) (Some chs))"
    using assms(3) by (simp add: rebuildChildren_def chs_def c1_def split: prod.split)
  have st: "settleRequests adapter s [this] (c, rq @ [variablesReference (attrs this)])
              = ([(LiveVariableNode (attrs this) (Some chs), True)], c1, log)"
    using assms(2) rb by (simp add: settleRequest_def log_def)
  have aw: "awaited s [(LiveVariableNode (attrs this) (Some chs), True)] = pending"
    by (simp add: awaited_def pending_def)
  obtain answered st' where e: "refreshLevel adapter s pending (c1, log) = (answered, st')"
    by (cases "refreshLevel adapter s pending (c1, log)") auto
  obtain kids left where k: "replaceAwaited s chs answered = (kids, left)"
    by (cases "replaceAwaited s chs answered") auto
  have lv: "refreshLevel adapter s [this] (c, rq @ [variablesReference (attrs this)])
              = ([LiveVariableNode (attrs this) (Some kids)], st')"
    using st aw e k
    by (simp add: refreshLevel.simps[of adapter s "[this]"])
  have r: "refreshChildren adapter sess this (c, rq)
             = (LiveVariableNode (attrs this) (Some kids), st')"
    using refreshChildren_unfold[OF assms(1), of adapter c rq] lv by (simp add: s_def)
  have "map attrs answered = map attrs pending"
    using refreshLevel_attrs[of adapter s pending "(c1, log)"] e by simp
  then have "map attrs kids = map attrs chs"
    using replaceAwaited_attrs[of answered s chs "[]"] k by (simp add: pending_def)
  then have "map (name \<circ> attrs) kids = map (name \<circ> attrs) chs"
    by (metis map_map)
  then show ?thesis
    using r makeChildren_names[of this s "saveStates (getChildren this)" c vs]
    by (simp add: chs_def)
qed

lemma refreshChildren_requests_first:
  assumes "shouldFetch sess this"
  shows "\<exists>more. snd (snd (refreshChildren adapter sess this (c, rq)))
                  = rq @ variablesReference (attrs this) # more"
proof -
  obtain more where
    "snd (snd (refreshLevel adapter (the sess) [this] (c, rq @ [variablesReference (attrs this)])))
       = (rq @ [variablesReference (attrs this)]) @ more"
    using refreshLevel_log[of adapter "the sess" "[this]"
        "(c, rq @ [variablesReference (attrs this)])"] by auto
  then show ?thesis
    using refreshChildren_unfold[OF assms, of adapter c rq] by (auto split: prod.splits)
qed

text \<open>
  The order of the requests on \<open>exDeep\<close>. The answer to the request of the node (5)
  brings the children \<open>f\<close> and \<open>h\<close>, both expanded, and their requests (7, 8) are
  issued before the answer to the first of them brings \<open>x\<close> and its request (9). The
  new node below \<open>h\<close> is therefore constructed before the new node below \<open>x\<close>, and
  takes the smaller id.
\<close>

lemma refreshChildren_level_order:
  "snd (refreshChildren exReplies (Some 1) exDeep (20, [])) = (25, [5, 7, 8, 9]) \<and>
   map (id' \<circ> attrs)
     (getChildren (getChildren (fst (refreshChildren exReplies (Some 1) exDeep (20, []))) ! 1))
     = [Some ''node_23''] \<and>
   map (id' \<circ> attrs)
     (getChildren (getChildren (getChildren
        (fst (refreshChildren exReplies (Some 1) exDeep (20, []))) ! 0) ! 0))
     = [Some ''node_24'']"
  by code_simp

text \<open>
  Claim C6, amended. Unless a session is given, it is the session recorded in the node,
  the node is expanded and its variables reference is positive, \<open>refreshChildren\<close>
  issues no request and returns with the node, its children list included, unchanged.
  Otherwise it issues a \<open>liveVariables\<close> request for the variables reference of the
  node. When that request is rejected the node, its children list included, stays as it
  was. When it is fulfilled without variables or with an empty list the children become
  \<open>undefined\<close>. When it is fulfilled with a non-empty list the children become a list of
  one node for each variable, in order and under the names of the variables.
\<close>

theorem C6_children_fetched_lazily:
  "(\<not> shouldFetch sess this \<longrightarrow> refreshChildren adapter sess this (c, rq) = (this, c, rq)) \<and>
   (shouldFetch sess this \<longrightarrow>
      (\<exists>more. snd (snd (refreshChildren adapter sess this (c, rq)))
                = rq @ variablesReference (attrs this) # more) \<and>
      (adapter (variablesReference (attrs this)) = Rejected \<longrightarrow>
         refreshChildren adapter sess this (c, rq)
           = (this, c, rq @ [variablesReference (attrs this)])) \<and>
      (adapter (variablesReference (attrs this)) = Fulfilled None \<or>
       adapter (variablesReference (attrs this)) = Fulfilled (Some []) \<longrightarrow>
         refreshChildren adapter sess this (c, rq)
           = (LiveVariableNode (attrs this) None, c, rq @ [variablesReference (attrs this)])) \<and>
      (\<forall>vs. adapter (variablesReference (attrs this)) = Fulfilled (Some vs) \<and> vs \<noteq> [] \<longrightarrow>
         children (fst (refreshChildren adapter sess this (c, rq))) \<noteq> None \<and>
         map (name \<circ> attrs) (getChildren (fst (refreshChildren adapter sess this (c, rq))))
           = map var_name vs))"
  using refreshChildren_skip[of sess this adapter c rq]
    refreshChildren_requests_first[of sess this adapter c rq]
    refreshChildren_rejected[of sess this adapter c rq]
    refreshChildren_empty[of sess this adapter c rq]
    refreshChildren_fulfilled[of sess this adapter _ c rq]
  by blast

text \<open>
  The theorem on \<open>exStruct\<close>: another session and no session, a rejected request, an
  empty reply, and a reply of two variables.
\<close>

theorem C6_witness:
  "refreshChildren (\<lambda>r. Rejected) (Some 2) exStruct (20, []) = (exStruct, 20, []) \<and>
   refreshChildren (\<lambda>r. Rejected) None exStruct (20, []) = (exStruct, 20, []) \<and>
   refreshChildren (\<lambda>r. Rejected) (Some 1) exStruct (20, []) = (exStruct, 20, [5]) \<and>
   refreshChildren (\<lambda>r. Fulfilled (Some [])) (Some 1) exStruct (20, [])
     = (LiveVariableNode (attrs exStruct) None, 20, [5]) \<and>
   map (name \<circ> attrs)
     (getChildren (fst (refreshChildren
        (\<lambda>r. if r = 5 then Fulfilled (Some [exVariable ''f'' ''5'' 7, exVariable ''h'' ''9'' 0])
              else Fulfilled None)
        (Some 1) exStruct (20, []))))
     = [''f'', ''h'']"
proof -
  have n2: "\<not> shouldFetch (Some 2) exStruct" "\<not> shouldFetch None exStruct"
    by (simp_all add: shouldFetch_def exStruct_def exParent_def)
  have y: "shouldFetch (Some 1) exStruct"
    by (simp add: shouldFetch_def exStruct_def exParent_def)
  have v: "variablesReference (attrs exStruct) = 5"
    by (simp add: exStruct_def exParent_def)
  show ?thesis
    using C6_children_fetched_lazily[of "Some 2" exStruct "\<lambda>r. Rejected" 20 "[]"]
      C6_children_fetched_lazily[of None exStruct "\<lambda>r. Rejected" 20 "[]"]
      C6_children_fetched_lazily[of "Some 1" exStruct "\<lambda>r. Rejected" 20 "[]"]
      C6_children_fetched_lazily[of "Some 1" exStruct "\<lambda>r. Fulfilled (Some [])" 20 "[]"]
      C6_children_fetched_lazily[of "Some 1" exStruct
        "\<lambda>r. if r = 5 then Fulfilled (Some [exVariable ''f'' ''5'' 7, exVariable ''h'' ''9'' 0])
              else Fulfilled None" 20 "[]"]
      n2 y v
    by (simp add: exVariable_def)
qed

text \<open>
  The claim as stated fails where it says that the children become \<open>undefined\<close> when
  the request is rejected: the rejection handler only resolves, and the children of
  \<open>exStruct\<close> are still there.
\<close>

theorem C6_counterexample:
  "shouldFetch (Some 1) exStruct \<and>
   children (fst (refreshChildren (\<lambda>r. Rejected) (Some 1) exStruct (20, [])))
     = children exStruct \<and>
   children (fst (refreshChildren (\<lambda>r. Rejected) (Some 1) exStruct (20, []))) \<noteq> None"
proof -
  have y: "shouldFetch (Some 1) exStruct"
    by (simp add: shouldFetch_def exStruct_def exParent_def)
  have "refreshChildren (\<lambda>r. Rejected) (Some 1) exStruct (20, [])
          = (exStruct, 20, [] @ [variablesReference (attrs exStruct)])"
    using y by (rule refreshChildren_rejected) simp
  then show ?thesis using y by (simp add: exStruct_def exParent_def)
qed

section \<open>The polling period is bounded\<close>

lemma period_bounds: "50 \<le> 1000 / clampSamples sps \<and> 1000 / clampSamples sps \<le> 1000"
proof -
  have lo: "1 \<le> clampSamples sps" and hi: "clampSamples sps \<le> 20"
    by (simp_all add: clampSamples_def)
  have pos: "0 < clampSamples sps" using lo by linarith
  have "50 * clampSamples sps \<le> 1000" using hi by linarith
  then have "50 \<le> 1000 / clampSamples sps" using pos by (simp add: pos_le_divide_eq)
  moreover have "1000 / clampSamples sps \<le> 1000" using lo pos by (simp add: pos_divide_le_eq)
  ultimately show ?thesis by simp
qed

lemma updateWebview_period:
  "timeoutMs (updateWebview g cwdOf st) = timeoutMs st \<and>
   timer (updateWebview g cwdOf st) = timer st \<and>
   liveSession (updateWebview g cwdOf st) = liveSession st"
  by (simp add: updateWebview_def Let_def)

lemma debugSessionStarted_accepted:
  "enabled lw \<Longrightarrow> liveSession st = None
     \<Longrightarrow> timeoutMs (debugSessionStarted g cwdOf st sess (Some lw))
           = 1000 / clampSamples (samplesPerSecond lw) \<and>
         timer (debugSessionStarted g cwdOf st sess (Some lw))
           = Some (1000 / clampSamples (samplesPerSecond lw))"
  by (simp add: debugSessionStarted_def startTimer_def clampSamples_def Let_def)

lemma debugSessionStarted_refused:
  "liveSession st \<noteq> None \<Longrightarrow> debugSessionStarted g cwdOf st sess liveWatch = st"
  by (auto simp: debugSessionStarted_def split: option.splits)

lemma debugSessionStarted_not_enabled:
  "liveWatch = None \<or> \<not> enabled (the liveWatch) \<Longrightarrow> liveSession st = None
     \<Longrightarrow> debugSessionStarted g cwdOf st sess liveWatch = updateWebview g cwdOf st"
  by (auto simp: debugSessionStarted_def split: option.splits)

lemma debugSessionStarted_other:
  "liveWatch = None \<or> \<not> enabled (the liveWatch) \<or> liveSession st \<noteq> None
     \<Longrightarrow> timeoutMs (debugSessionStarted g cwdOf st sess liveWatch) = timeoutMs st \<and>
         timer (debugSessionStarted g cwdOf st sess liveWatch) = timer st"
proof (cases "liveSession st = None")
  case True
  assume "liveWatch = None \<or> \<not> enabled (the liveWatch) \<or> liveSession st \<noteq> None"
  then have "liveWatch = None \<or> \<not> enabled (the liveWatch)" using True by simp
  then show ?thesis
    using debugSessionStarted_not_enabled[of liveWatch st g cwdOf sess] True
      updateWebview_period[of g cwdOf st]
    by simp
next
  case False
  then show ?thesis by (simp add: debugSessionStarted_refused)
qed

text \<open>
  When live watch is not enabled for the session that starts and no session is attached,
  the provider is not left as it was if it has a webview: an \<open>update\<close> message is
  posted, and the projection stores the current value of the projected nodes as their
  previous value. On \<open>exShown\<close> the message carries the one root child, reported as
  changed, and the previous value of that child becomes 8.
\<close>

lemma debugSessionStarted_not_enabled_posts:
  "posted (debugSessionStarted (\<lambda>dir file. file) (\<lambda>s. None) exShown 1
             (Some \<lparr>enabled = False, samplesPerSecond = None\<rparr>))
     = [([fst (toWebViewNode (\<lambda>dir file. file) 0 None exValued)], False)] \<and>
   map (prevValue \<circ> attrs)
     (getChildren (variables (debugSessionStarted (\<lambda>dir file. file) (\<lambda>s. None) exShown 1
                                (Some \<lparr>enabled = False, samplesPerSecond = None\<rparr>))))
     = [Some ''8''] \<and>
   map (prevValue \<circ> attrs) (getChildren (variables exShown)) = [Some ''7'']"
  by (simp add: debugSessionStarted_def updateWebview_def exShown_def initialProvider_def
      setRefreshRate_def Let_def exValued_def exTree_eval newNode_def)

text \<open>
  Claim C7, amended. When a debug session with \<open>liveWatch\<close> enabled starts and no
  session is attached to the panel yet, \<open>timeoutMs\<close> is set to 1000 divided by the
  samples per second (4 when absent) clamped to the range from 1 to 20, and the timer is
  armed with that period. When a session is already attached, \<open>debugSessionStarted\<close>
  leaves the provider as it is; when \<open>liveWatch\<close> is not enabled and no session is
  attached, it does what \<open>updateWebview\<close> does; in both cases \<open>timeoutMs\<close> and the
  timer keep their values. \<open>timeoutMs\<close> starts as 250, and whatever the configuration, a
  value between 50 and 1000 stays between 50 and 1000. Independently, \<open>setRefreshRate\<close>
  clamps the configured refresh rate (300 when absent) to the range from 200 to 5000.
\<close>

theorem C7_polling_period_bounded:
  "(enabled lw \<and> liveSession st = None \<longrightarrow>
      timeoutMs (debugSessionStarted g cwdOf st sess (Some lw))
        = 1000 / clampSamples (samplesPerSecond lw) \<and>
      timer (debugSessionStarted g cwdOf st sess (Some lw))
        = Some (1000 / clampSamples (samplesPerSecond lw))) \<and>
   (liveSession st \<noteq> None \<longrightarrow> debugSessionStarted g cwdOf st sess liveWatch = st) \<and>
   (\<not> enabled lw \<and> liveSession st = None \<longrightarrow>
      debugSessionStarted g cwdOf st sess (Some lw) = updateWebview g cwdOf st) \<and>
   (\<not> enabled lw \<or> liveSession st \<noteq> None \<longrightarrow>
      timeoutMs (debugSessionStarted g cwdOf st sess (Some lw)) = timeoutMs st \<and>
      timer (debugSessionStarted g cwdOf st sess (Some lw)) = timer st) \<and>
   1 \<le> clampSamples sps \<and> clampSamples sps \<le> 20 \<and> clampSamples None = 4 \<and>
   (50 \<le> timeoutMs st \<and> timeoutMs st \<le> 1000 \<longrightarrow>
      50 \<le> timeoutMs (debugSessionStarted g cwdOf st sess liveWatch) \<and>
      timeoutMs (debugSessionStarted g cwdOf st sess liveWatch) \<le> 1000) \<and>
   timeoutMs (initialProvider configured) = 250 \<and>
   currentRefreshRate (setRefreshRate st configured) =
     min (max (case configured of None \<Rightarrow> 300 | Some r \<Rightarrow> r) 200) 5000 \<and>
   200 \<le> currentRefreshRate (setRefreshRate st configured) \<and>
   currentRefreshRate (setRefreshRate st configured) \<le> 5000"
proof -
  have a: "enabled lw \<and> liveSession st = None \<longrightarrow>
      timeoutMs (debugSessionStarted g cwdOf st sess (Some lw))
        = 1000 / clampSamples (samplesPerSecond lw) \<and>
      timer (debugSessionStarted g cwdOf st sess (Some lw))
        = Some (1000 / clampSamples (samplesPerSecond lw))"
    using debugSessionStarted_accepted[of lw st g cwdOf sess] by blast
  have b1: "liveSession st \<noteq> None \<longrightarrow> debugSessionStarted g cwdOf st sess liveWatch = st"
    by (simp add: debugSessionStarted_refused)
  have b2: "\<not> enabled lw \<and> liveSession st = None \<longrightarrow>
      debugSessionStarted g cwdOf st sess (Some lw) = updateWebview g cwdOf st"
    using debugSessionStarted_not_enabled[of "Some lw" st g cwdOf sess] by simp
  have b3: "\<not> enabled lw \<or> liveSession st \<noteq> None \<longrightarrow>
      timeoutMs (debugSessionStarted g cwdOf st sess (Some lw)) = timeoutMs st \<and>
      timer (debugSessionStarted g cwdOf st sess (Some lw)) = timer st"
    using debugSessionStarted_other[of "Some lw" st g cwdOf sess] by simp
  have c: "1 \<le> clampSamples sps \<and> clampSamples sps \<le> 20 \<and> clampSamples None = 4"
    by (simp add: clampSamples_def)
  have d: "50 \<le> timeoutMs st \<and> timeoutMs st \<le> 1000 \<longrightarrow>
      50 \<le> timeoutMs (debugSessionStarted g cwdOf st sess liveWatch) \<and>
      timeoutMs (debugSessionStarted g cwdOf st sess liveWatch) \<le> 1000"
  proof (cases "\<exists>lw'. liveWatch = Some lw' \<and> enabled lw' \<and> liveSession st = None")
    case True
    then obtain lw' where "liveWatch = Some lw'" "enabled lw'" "liveSession st = None" by blast
    then show ?thesis
      using debugSessionStarted_accepted[of lw' st g cwdOf sess]
        period_bounds[of "samplesPerSecond lw'"]
      by simp
  next
    case False
    then have "liveWatch = None \<or> \<not> enabled (the liveWatch) \<or> liveSession st \<noteq> None"
      by (cases liveWatch) auto
    then have "timeoutMs (debugSessionStarted g cwdOf st sess liveWatch) = timeoutMs st"
      using debugSessionStarted_other[of liveWatch st g cwdOf sess] by simp
    then show ?thesis by simp
  qed
  have e: "timeoutMs (initialProvider configured) = 250"
    by (simp add: initialProvider_def setRefreshRate_def Let_def)
  have f: "currentRefreshRate (setRefreshRate st configured) =
     min (max (case configured of None \<Rightarrow> 300 | Some r \<Rightarrow> r) 200) 5000"
    by (simp add: setRefreshRate_def Let_def defaultRefreshRate_def minRefreshRate_def
        maxRefreshRate_def split: option.split)
  have g: "200 \<le> currentRefreshRate (setRefreshRate st configured) \<and>
   currentRefreshRate (setRefreshRate st configured) \<le> 5000"
    unfolding f by simp
  show ?thesis using a b1 b2 b3 c d e f g by blast
qed

text \<open>
  The theorem on the provider as constructed: 50, no and 0 samples per second, a session
  without live watch, and the refresh rates 10 and 60000; and on \<open>exAttached\<close>, which
  refuses a second session.
\<close>

theorem C7_witness:
  "timeoutMs (debugSessionStarted (\<lambda>dir file. file) (\<lambda>s. None) (initialProvider None) 1
                (Some \<lparr>enabled = True, samplesPerSecond = Some 50\<rparr>)) = 50 \<and>
   timeoutMs (debugSessionStarted (\<lambda>dir file. file) (\<lambda>s. None) (initialProvider None) 1
                (Some \<lparr>enabled = True, samplesPerSecond = None\<rparr>)) = 250 \<and>
   timeoutMs (debugSessionStarted (\<lambda>dir file. file) (\<lambda>s. None) (initialProvider None) 1
                (Some \<lparr>enabled = True, samplesPerSecond = Some 0\<rparr>)) = 1000 \<and>
   timeoutMs (debugSessionStarted (\<lambda>dir file. file) (\<lambda>s. None) (initialProvider None) 1
                (Some \<lparr>enabled = False, samplesPerSecond = Some 20\<rparr>)) = 250 \<and>
   debugSessionStarted (\<lambda>dir file. file) (\<lambda>s. None) (initialProvider None) 1
     (Some \<lparr>enabled = False, samplesPerSecond = Some 20\<rparr>)
     = updateWebview (\<lambda>dir file. file) (\<lambda>s. None) (initialProvider None) \<and>
   debugSessionStarted (\<lambda>dir file. file) (\<lambda>s. None) exAttached 2
     (Some \<lparr>enabled = True, samplesPerSecond = Some 20\<rparr>) = exAttached \<and>
   currentRefreshRate (setRefreshRate (initialProvider None) (Some 10)) = 200 \<and>
   currentRefreshRate (setRefreshRate (initialProvider None) (Some 60000)) = 5000"
proof -
  have n: "liveSession (initialProvider None) = None"
    by (simp add: initialProvider_def setRefreshRate_def Let_def)
  have t: "timeoutMs (initialProvider None) = 250"
    by (simp add: initialProvider_def setRefreshRate_def Let_def)
  have s: "liveSession exAttached \<noteq> None"
    by (simp add: exAttached_def debugSessionStarted_def startTimer_def initialProvider_def
        setRefreshRate_def Let_def)
  show ?thesis
    using C7_polling_period_bounded[of "\<lparr>enabled = True, samplesPerSecond = Some 50\<rparr>"
        "initialProvider None" "\<lambda>dir file. file" "\<lambda>s. None" 1 None None "Some 10"]
      C7_polling_period_bounded[of "\<lparr>enabled = True, samplesPerSecond = None\<rparr>"
        "initialProvider None" "\<lambda>dir file. file" "\<lambda>s. None" 1 None None "Some 60000"]
      C7_polling_period_bounded[of "\<lparr>enabled = True, samplesPerSecond = Some 0\<rparr>"
        "initialProvider None" "\<lambda>dir file. file" "\<lambda>s. None" 1 None None None]
      C7_polling_period_bounded[of "\<lparr>enabled = False, samplesPerSecond = Some 20\<rparr>"
        "initialProvider None" "\<lambda>dir file. file" "\<lambda>s. None" 1 None None None]
      C7_polling_period_bounded[of "\<lparr>enabled = True, samplesPerSecond = Some 20\<rparr>"
        exAttached "\<lambda>dir file. file" "\<lambda>s. None" 2
        "Some \<lparr>enabled = True, samplesPerSecond = Some 20\<rparr>" None None]
      n t s
    by (simp add: clampSamples_def updateWebview_period)
qed

text \<open>
  The claim as stated fails when a session is already attached: a second session with
  \<open>liveWatch\<close> enabled and 20 samples per second is refused, and \<open>timeoutMs\<close> remains
  250 instead of becoming 50.
\<close>

theorem C7_counterexample:
  "enabled \<lparr>enabled = True, samplesPerSecond = Some 20\<rparr> \<and>
   timeoutMs (debugSessionStarted (\<lambda>dir file. file) (\<lambda>s. None) exAttached 2
                (Some \<lparr>enabled = True, samplesPerSecond = Some 20\<rparr>)) = 250 \<and>
   timeoutMs (debugSessionStarted (\<lambda>dir file. file) (\<lambda>s. None) exAttached 2
                (Some \<lparr>enabled = True, samplesPerSecond = Some 20\<rparr>))
     \<noteq> 1000 / max 1 (min 20 20)"
  by (simp add: exAttached_def debugSessionStarted_def startTimer_def initialProvider_def
      setRefreshRate_def Let_def)

section \<open>Applying a value format\<close>

lemma stripFormat_append:
  assumes "f \<in> formats"
  shows "stripFormat (e @ CHR '','' # f) = e"
proof -
  obtain c where c: "f = [c]" "c \<in> set ''hxbod''"
    using assms by (auto simp: formats_def)
  have "(e @ [CHR '','', c]) ! length e = CHR '',''"
    by (simp add: nth_append)
  moreover have "(e @ [CHR '','', c]) ! Suc (length e) = c"
    by (simp add: nth_append)
  ultimately show ?thesis
    using c by (simp add: stripFormat_def)
qed

lemma updateFormatExpr_format:
  "f \<in> formats \<Longrightarrow> updateFormatExpr e f = stripFormat e @ CHR '','' # f"
  by (auto simp: updateFormatExpr_def formats_def)

text \<open>
  Claim C8. For every expression and every format \<open>f\<close> among \<open>h\<close>, \<open>x\<close>, \<open>b\<close>,
  \<open>o\<close> and \<open>d\<close>, the rewrite of \<open>handleUpdateFormat\<close> gives the same result applied
  once or twice with \<open>f\<close>, and applied with \<open>f\<close> after any format \<open>g\<close> it gives the
  expression, stripped of the format it ended with if any, with \<open>,f\<close> appended: what
  applying \<open>f\<close> alone gives.
\<close>

theorem C8_format_idempotent:
  "f \<in> formats \<longrightarrow>
     updateFormatExpr (updateFormatExpr e f) f = updateFormatExpr e f \<and>
     (\<forall>g \<in> formats. updateFormatExpr (updateFormatExpr e g) f = stripFormat e @ '','' @ f) \<and>
     updateFormatExpr e f = stripFormat e @ '','' @ f"
proof
  assume f: "f \<in> formats"
  have two: "updateFormatExpr (updateFormatExpr e g) f = stripFormat e @ CHR '','' # f"
    if g: "g \<in> formats" for g
    by (simp add: updateFormatExpr_format[OF g] updateFormatExpr_format[OF f]
        stripFormat_append[OF g])
  have "updateFormatExpr (updateFormatExpr e f) f = updateFormatExpr e f"
    using two[OF f] by (simp add: updateFormatExpr_format[OF f])
  moreover have
    "\<forall>g \<in> formats. updateFormatExpr (updateFormatExpr e g) f = stripFormat e @ '','' @ f"
    using two by simp
  moreover have "updateFormatExpr e f = stripFormat e @ '','' @ f"
    by (simp add: updateFormatExpr_format[OF f])
  ultimately show "updateFormatExpr (updateFormatExpr e f) f = updateFormatExpr e f \<and>
     (\<forall>g \<in> formats. updateFormatExpr (updateFormatExpr e g) f = stripFormat e @ '','' @ f) \<and>
     updateFormatExpr e f = stripFormat e @ '','' @ f"
    by blast
qed

text \<open>
  The theorem on an expression that ends with a format and on one that contains a comma
  but no format.
\<close>

theorem C8_witness:
  "updateFormatExpr ''counter,x'' ''h'' = ''counter,h'' \<and>
   updateFormatExpr (updateFormatExpr ''counter,x'' ''h'') ''h'' = ''counter,h'' \<and>
   updateFormatExpr (updateFormatExpr ''counter,x'' ''b'') ''h'' = ''counter,h'' \<and>
   updateFormatExpr ''a[1,2]'' ''d'' = ''a[1,2],d''"
proof -
  have h: "''h'' \<in> formats" "''b'' \<in> formats" "''d'' \<in> formats" by (simp_all add: formats_def)
  have s1: "stripFormat ''counter,x'' = ''counter''" by (simp add: stripFormat_def)
  have s2: "stripFormat ''a[1,2]'' = ''a[1,2]''" by (simp add: stripFormat_def)
  show ?thesis
    using C8_format_idempotent[of "''h''" "''counter,x''"]
      C8_format_idempotent[of "''d''" "''a[1,2]''"] h s1 s2
    by auto
qed

section \<open>Reordering root children\<close>

lemma indexOfName_first:
  "i < length cs \<Longrightarrow> name (attrs (cs ! i)) = nm
     \<Longrightarrow> \<forall>j<i. name (attrs (cs ! j)) \<noteq> nm \<Longrightarrow> indexOfName nm cs k = Some (k + i)"
proof (induction cs arbitrary: i k)
  case Nil
  then show ?case by simp
next
  case (Cons c cs)
  show ?case
  proof (cases i)
    case 0
    then show ?thesis using Cons.prems by simp
  next
    case (Suc i')
    have "name (attrs c) \<noteq> nm" using Cons.prems(3) Suc by auto
    moreover have "indexOfName nm cs (k + 1) = Some (k + 1 + i')"
      using Cons.prems Suc by (intro Cons.IH) auto
    ultimately show ?thesis using Suc by simp
  qed
qed

lemma indexOfName_Some:
  "indexOfName nm cs k = Some ix
     \<Longrightarrow> k \<le> ix \<and> ix - k < length cs \<and> name (attrs (cs ! (ix - k))) = nm"
proof (induction cs arbitrary: k)
  case Nil
  then show ?case by simp
next
  case (Cons c cs)
  show ?case
  proof (cases "name (attrs c) = nm")
    case True
    then show ?thesis using Cons.prems by simp
  next
    case False
    then have "indexOfName nm cs (k + 1) = Some ix" using Cons.prems by simp
    from Cons.IH[OF this] show ?thesis by (auto simp: Suc_diff_le less_eq_Suc_le)
  qed
qed

lemma indexOfName_mem:
  "c \<in> set cs \<Longrightarrow> \<exists>ix. indexOfName (name (attrs c)) cs k = Some ix"
  by (induction cs arbitrary: k) auto

lemma mset_rotate_up: "cs \<noteq> [] \<Longrightarrow> mset (tl cs @ [hd cs]) = mset cs"
  by (cases cs) simp_all

lemma mset_rotate_down: "cs \<noteq> [] \<Longrightarrow> mset (last cs # butlast cs) = mset cs"
  by (induction cs rule: rev_induct) simp_all

lemma mset_swap_up:
  "0 < ix \<Longrightarrow> ix < length cs \<Longrightarrow> mset ((cs[ix := cs ! (ix - 1)])[ix - 1 := cs ! ix]) = mset cs"
  using mset_swap[of "ix - 1" cs ix] by simp

lemma mset_swap_down:
  "ix + 1 < length cs \<Longrightarrow> mset ((cs[ix := cs ! (ix + 1)])[ix + 1 := cs ! ix]) = mset cs"
  using mset_swap[of "ix + 1" cs ix] by simp

lemma moveUpChild_found:
  assumes "isRootChild node" and "indexOfName (name (attrs node)) (getChildren this) 0 = Some ix"
  shows "moveUpChild this (Some node) =
           (True, LiveVariableNode (attrs this)
              (Some (if 0 < ix
                     then ((getChildren this)[ix := getChildren this ! (ix - 1)])
                            [ix - 1 := getChildren this ! ix]
                     else tl (getChildren this) @ [hd (getChildren this)])))"
  using assms by (simp add: moveUpChild_def Let_def)

lemma moveDownChild_found:
  assumes "isRootChild node" and "indexOfName (name (attrs node)) (getChildren this) 0 = Some ix"
  shows "moveDownChild this (Some node) =
           (True, LiveVariableNode (attrs this)
              (Some (if int ix \<noteq> int (length (getChildren this)) - 1
                     then ((getChildren this)[ix := getChildren this ! (ix + 1)])
                            [ix + 1 := getChildren this ! ix]
                     else last (getChildren this) # butlast (getChildren this))))"
  using assms by (simp add: moveDownChild_def Let_def)

text \<open>
  Claim C9, amended. The loops of \<open>moveUpChild\<close> and \<open>moveDownChild\<close> look the child up
  by name. For every root child \<open>node\<close> at position \<open>i\<close> of the children of \<open>this\<close>, both
  return \<open>true\<close> and keep the multiset of children. When \<open>node\<close> is the first child that
  bears its name, \<open>moveUpChild\<close> swaps it with its left neighbour, or moves it to the last
  position when it is the first child, and \<open>moveDownChild\<close> swaps it with its right
  neighbour, or moves it to the first position when it is the last child.
\<close>

theorem C9_reorder_first_of_name:
  assumes "isRootChild node" and "cs = getChildren this" and "i < length cs" and "cs ! i = node"
  shows "fst (moveUpChild this (Some node)) \<and> fst (moveDownChild this (Some node)) \<and>
         mset (getChildren (snd (moveUpChild this (Some node)))) = mset cs \<and>
         mset (getChildren (snd (moveDownChild this (Some node)))) = mset cs \<and>
         ((\<forall>j<i. name (attrs (cs ! j)) \<noteq> name (attrs node)) \<longrightarrow>
            getChildren (snd (moveUpChild this (Some node))) =
              (if 0 < i then (cs[i := cs ! (i - 1)])[i - 1 := node] else tl cs @ [node]) \<and>
            getChildren (snd (moveDownChild this (Some node))) =
              (if i + 1 < length cs then (cs[i := cs ! (i + 1)])[i + 1 := node]
               else node # butlast cs))"
proof -
  have gc: "getChildren this = cs" using assms(2) by simp
  have mem: "node \<in> set cs" using assms(3,4) by auto
  then obtain ix where ix: "indexOfName (name (attrs node)) (getChildren this) 0 = Some ix"
    using indexOfName_mem[of node cs 0] gc by auto
  from indexOfName_Some[OF ix] have ixlen: "ix < length cs" using gc by simp
  have ne: "cs \<noteq> []" using assms(3) by auto
  have up: "moveUpChild this (Some node) =
           (True, LiveVariableNode (attrs this)
              (Some (if 0 < ix then (cs[ix := cs ! (ix - 1)])[ix - 1 := cs ! ix]
                     else tl cs @ [hd cs])))"
    using moveUpChild_found[OF assms(1) ix] unfolding gc .
  have down: "moveDownChild this (Some node) =
           (True, LiveVariableNode (attrs this)
              (Some (if ix + 1 < length cs then (cs[ix := cs ! (ix + 1)])[ix + 1 := cs ! ix]
                     else last cs # butlast cs)))"
  proof -
    have "int ix \<noteq> int (length cs) - 1 \<longleftrightarrow> ix + 1 < length cs" using ixlen by auto
    then show ?thesis using moveDownChild_found[OF assms(1) ix] unfolding gc by simp
  qed
  have "fst (moveUpChild this (Some node))" "fst (moveDownChild this (Some node))"
    using up down by simp_all
  moreover have "mset (getChildren (snd (moveUpChild this (Some node)))) = mset cs"
    using ixlen ne mset_swap_up[of ix cs] mset_rotate_up[of cs] by (simp add: up)
  moreover have "mset (getChildren (snd (moveDownChild this (Some node)))) = mset cs"
    using ne mset_swap_down[of ix cs] mset_rotate_down[of cs] by (simp add: down)
  moreover have "getChildren (snd (moveUpChild this (Some node))) =
              (if 0 < i then (cs[i := cs ! (i - 1)])[i - 1 := node] else tl cs @ [node]) \<and>
            getChildren (snd (moveDownChild this (Some node))) =
              (if i + 1 < length cs then (cs[i := cs ! (i + 1)])[i + 1 := node]
               else node # butlast cs)"
    if first: "\<forall>j<i. name (attrs (cs ! j)) \<noteq> name (attrs node)"
  proof -
    have "indexOfName (name (attrs node)) cs 0 = Some (0 + i)"
      using assms(3,4) first by (intro indexOfName_first) auto
    then have eq: "ix = i" using ix gc by simp
    have hd: "i = 0 \<Longrightarrow> hd cs = node" using ne assms(4) by (simp add: hd_conv_nth)
    have lst: "\<not> i + 1 < length cs \<Longrightarrow> last cs = node"
    proof -
      assume "\<not> i + 1 < length cs"
      then have "i = length cs - 1" using assms(3) by simp
      then show ?thesis using ne assms(4) by (simp add: last_conv_nth)
    qed
    show ?thesis
      using eq assms(4) hd lst by (simp add: up down)
  qed
  ultimately show ?thesis by blast
qed

text \<open>
  The theorem on the watch list \<open>x\<close>, \<open>a\<close>, \<open>b\<close>: the second child moved up and down,
  the first moved up and the last moved down.
\<close>

theorem C9_witness:
  "fst (moveUpChild (snd exTree) (Some (getChildren (snd exTree) ! 1))) \<and>
   fst (moveDownChild (snd exTree) (Some (getChildren (snd exTree) ! 1))) \<and>
   mset (getChildren (snd (moveUpChild (snd exTree) (Some (getChildren (snd exTree) ! 1)))))
     = mset (getChildren (snd exTree)) \<and>
   map (name \<circ> attrs)
     (getChildren (snd (moveUpChild (snd exTree) (Some (getChildren (snd exTree) ! 1)))))
     = [''a'', ''x'', ''b''] \<and>
   map (name \<circ> attrs)
     (getChildren (snd (moveDownChild (snd exTree) (Some (getChildren (snd exTree) ! 1)))))
     = [''x'', ''b'', ''a''] \<and>
   map (name \<circ> attrs)
     (getChildren (snd (moveUpChild (snd exTree) (Some (getChildren (snd exTree) ! 0)))))
     = [''a'', ''b'', ''x''] \<and>
   map (name \<circ> attrs)
     (getChildren (snd (moveDownChild (snd exTree) (Some (getChildren (snd exTree) ! 2)))))
     = [''b'', ''x'', ''a'']"
proof -
  have r: "isRootChild (getChildren (snd exTree) ! 0)" "isRootChild (getChildren (snd exTree) ! 1)"
    "isRootChild (getChildren (snd exTree) ! 2)"
    by (simp_all add: exKids_eval isRootChild_iff newNode_def)
  have f0: "\<forall>j<0. name (attrs (getChildren (snd exTree) ! j)) \<noteq> name (attrs (getChildren (snd exTree) ! 0))"
    by simp
  have f1: "\<forall>j<1. name (attrs (getChildren (snd exTree) ! j)) \<noteq> name (attrs (getChildren (snd exTree) ! 1))"
    by (simp add: exKids_eval newNode_def)
  have f2: "\<forall>j<2. name (attrs (getChildren (snd exTree) ! j)) \<noteq> name (attrs (getChildren (snd exTree) ! 2))"
    by (simp add: exKids_eval newNode_def less_2_cases_iff)
  have l: "0 < length (getChildren (snd exTree))" "1 < length (getChildren (snd exTree))"
    "2 < length (getChildren (snd exTree))"
    by (simp_all add: exKids_eval)
  show ?thesis
    using C9_reorder_first_of_name[OF r(1) refl l(1) refl]
      C9_reorder_first_of_name[OF r(2) refl l(2) refl]
      C9_reorder_first_of_name[OF r(3) refl l(3) refl] f0 f1 f2
    by (simp add: exKids_eval newNode_def)
qed

text \<open>
  The claim as stated fails when two root children bear the same name. In \<open>exDupTree\<close>
  the children are \<open>x\<close>, \<open>a\<close>, \<open>a\<close>; moving the third child up swaps the second child
  with the first and leaves the third where it was.
\<close>

theorem C9_counterexample:
  "isRootChild (getChildren exDupTree ! 2) \<and>
   getChildren exDupTree ! 2 \<in> set (getChildren exDupTree) \<and>
   fst (moveUpChild exDupTree (Some (getChildren exDupTree ! 2))) \<and>
   getChildren (snd (moveUpChild exDupTree (Some (getChildren exDupTree ! 2)))) =
     [getChildren exDupTree ! 1, getChildren exDupTree ! 0, getChildren exDupTree ! 2] \<and>
   getChildren (snd (moveUpChild exDupTree (Some (getChildren exDupTree ! 2)))) \<noteq>
     ((getChildren exDupTree)[2 := getChildren exDupTree ! 1])[1 := getChildren exDupTree ! 2]"
  by (simp add: exDupTree_def exKids_eval rename_def isRootChild_iff newNode_def moveUpChild_def
      Let_def show_nat.simps digit_def)

section \<open>Watch expressions are unique at the top level\<close>

lemma addNewExpr_refused:
  "parent (attrs this) \<noteq> None \<or> ex \<in> set (map (expr \<circ> attrs) (getChildren this))
     \<Longrightarrow> addNewExpr c this ex = (False, c, this)"
  by (auto simp: addNewExpr_def list_ex_iff)

lemma addNewExpr_added:
  assumes "parent (attrs this) = None" and "ex \<notin> set (map (expr \<circ> attrs) (getChildren this))"
  shows "addNewExpr c this ex =
           (True, c + 1,
            LiveVariableNode (attrs this)
              (Some (getChildren this @
                       [snd (newNode c (Some (selfRef this)) ex ex '''' '''' 0)])))"
  using assms by (auto simp: addNewExpr_def list_ex_iff addChild_def newNode_def)

lemma addNewExpr_keeps_root:
  "parent (attrs (snd (snd (addNewExpr c this ex)))) = parent (attrs this)"
  by (auto simp: addNewExpr_def addChild_def split: prod.splits)

lemma addNewExpr_distinct:
  assumes "distinct (map (expr \<circ> attrs) (getChildren this))"
  shows "distinct (map (expr \<circ> attrs) (getChildren (snd (snd (addNewExpr c this ex)))))"
proof (cases "parent (attrs this) \<noteq> None \<or> ex \<in> set (map (expr \<circ> attrs) (getChildren this))")
  case True
  then show ?thesis using assms by (simp add: addNewExpr_refused)
next
  case False
  then show ?thesis using assms by (simp add: addNewExpr_added newNode_def)
qed

lemma addNewExprs_distinct:
  "distinct (map (expr \<circ> attrs) (getChildren this))
     \<Longrightarrow> distinct (map (expr \<circ> attrs) (getChildren (snd (addNewExprs c this es))))"
proof (induction es arbitrary: c this)
  case Nil
  then show ?case by simp
next
  case (Cons e es)
  obtain ok c' this' where step: "addNewExpr c this e = (ok, c', this')"
    by (cases "addNewExpr c this e") auto
  have "distinct (map (expr \<circ> attrs) (getChildren this'))"
    using addNewExpr_distinct[OF Cons.prems, of c e] step by simp
  from Cons.IH[OF this] show ?case using step by simp
qed

text \<open>
  Claim C10. \<open>addNewExpr\<close> returns \<open>false\<close> and changes neither the tree nor the id
  counter when \<open>this\<close> has a parent or some child of \<open>this\<close> already has the given
  string as its \<open>expr\<close>. Otherwise it returns \<open>true\<close> and appends exactly one child, whose
  \<open>name\<close> and \<open>expr\<close> both are the given string. Hence a sequence of \<open>addNewExpr\<close>
  calls keeps the \<open>expr\<close> values of the children pairwise distinct, and they are distinct
  after any sequence of calls on a root that starts without children.
\<close>

theorem C10_addNewExpr_unique:
  "(parent (attrs this) \<noteq> None \<or> ex \<in> set (map (expr \<circ> attrs) (getChildren this)) \<longrightarrow>
      addNewExpr c this ex = (False, c, this)) \<and>
   (parent (attrs this) = None \<and> ex \<notin> set (map (expr \<circ> attrs) (getChildren this)) \<longrightarrow>
      (\<exists>child. addNewExpr c this ex =
                 (True, c + 1, LiveVariableNode (attrs this) (Some (getChildren this @ [child])))
               \<and> name (attrs child) = ex \<and> expr (attrs child) = ex)) \<and>
   (distinct (map (expr \<circ> attrs) (getChildren this)) \<longrightarrow>
      distinct (map (expr \<circ> attrs) (getChildren (snd (addNewExprs c this es)))))"
proof (intro conjI impI)
  assume "parent (attrs this) \<noteq> None \<or> ex \<in> set (map (expr \<circ> attrs) (getChildren this))"
  then show "addNewExpr c this ex = (False, c, this)" by (rule addNewExpr_refused)
next
  assume a: "parent (attrs this) = None \<and> ex \<notin> set (map (expr \<circ> attrs) (getChildren this))"
  show "\<exists>child. addNewExpr c this ex =
                 (True, c + 1, LiveVariableNode (attrs this) (Some (getChildren this @ [child])))
               \<and> name (attrs child) = ex \<and> expr (attrs child) = ex"
    using addNewExpr_added[of this ex c] a
    by (intro exI[of _ "snd (newNode c (Some (selfRef this)) ex ex '''' '''' 0)"])
       (simp add: newNode_def)
next
  assume "distinct (map (expr \<circ> attrs) (getChildren this))"
  then show "distinct (map (expr \<circ> attrs) (getChildren (snd (addNewExprs c this es))))"
    by (rule addNewExprs_distinct)
qed

text \<open>
  The theorem on the watch list \<open>x\<close>, \<open>a\<close>, \<open>b\<close>: a call on a root child, a call with
  an expression already watched, a call with a new expression, and a sequence of calls
  with repetitions on the empty root.
\<close>

theorem C10_witness:
  "addNewExpr 4 (getChildren (snd exTree) ! 1) ''y'' = (False, 4, getChildren (snd exTree) ! 1) \<and>
   addNewExpr 4 (snd exTree) ''a'' = (False, 4, snd exTree) \<and>
   (\<exists>child. addNewExpr 4 (snd exTree) ''y'' =
              (True, 5, LiveVariableNode (attrs (snd exTree))
                          (Some (getChildren (snd exTree) @ [child])))
            \<and> name (attrs child) = ''y'' \<and> expr (attrs child) = ''y'') \<and>
   distinct (map (expr \<circ> attrs)
               (getChildren (snd (addNewExprs 1 exRoot [''x'', ''a'', ''x'', ''b'', ''a'']))))"
proof -
  have p1: "parent (attrs (getChildren (snd exTree) ! 1)) \<noteq> None"
    by (simp add: exKids_eval newNode_def)
  have p2: "''a'' \<in> set (map (expr \<circ> attrs) (getChildren (snd exTree)))"
    by (simp add: exKids_eval newNode_def)
  have p3: "parent (attrs (snd exTree)) = None \<and>
            ''y'' \<notin> set (map (expr \<circ> attrs) (getChildren (snd exTree)))"
    by (simp add: exKids_eval newNode_def) (simp add: exTree_eval exRoot_def newNode_def)
  have p4: "distinct (map (expr \<circ> attrs) (getChildren exRoot))"
    by (simp add: exRoot_def newNode_def getChildren_def)
  show ?thesis
    using C10_addNewExpr_unique[of "getChildren (snd exTree) ! 1" "''y''" 4 "[]"]
      C10_addNewExpr_unique[of "snd exTree" "''a''" 4 "[]"]
      C10_addNewExpr_unique[of "snd exTree" "''y''" 4 "[]"]
      C10_addNewExpr_unique[of exRoot "''x''" 1 "[''x'', ''a'', ''x'', ''b'', ''a'']"]
      p1 p2 p3 p4
    by simp
qed

end
